theory Spec2Isabelle
  imports Main "HOL-Library.AList"
begin

section \<open>Errors\<close>

text \<open>
  The three exceptions of the sources: \<open>std::invalid_argument\<close> thrown by the cache
  constructor, \<open>std::range_error\<close> thrown by \<open>Get\<close>, and \<open>std::runtime_error\<close> thrown by
  every \<open>ReplacementCandidate\<close> on an empty policy.
\<close>

datatype error = InvalidCapacity | KeyNotFound | EmptyPolicy

section \<open>The containers of the standard library\<close>

subsection \<open>\<open>std::list\<close> with stable iterators\<close>

text \<open>
  A \<open>std::list<Key>\<close> is a sequence of nodes; an iterator is the identity of a node and
  stays valid until that node is erased. A node is a pair of its identity and its key,
  \<open>fresh\<close> is the identity the next allocated node receives.
\<close>

type_synonym iter = nat

record 'a std_list =
  cells :: "(iter \<times> 'a) list"
  fresh :: iter

definition list_new :: "'a std_list" where
  "list_new = \<lparr>cells = [], fresh = 0\<rparr>"

definition list_empty :: "'a std_list \<Rightarrow> bool" where
  "list_empty l = (cells l = [])"

definition emplace_front :: "'a \<Rightarrow> 'a std_list \<Rightarrow> 'a std_list" where
  "emplace_front x l = l\<lparr>cells := (fresh l, x) # cells l, fresh := Suc (fresh l)\<rparr>"

text \<open>\<open>begin()\<close>; on an empty list it is \<open>end()\<close>, which is no node of the list.\<close>

definition list_begin :: "'a std_list \<Rightarrow> iter" where
  "list_begin l = (case cells l of [] \<Rightarrow> fresh l | c # _ \<Rightarrow> fst c)"

text \<open>\<open>erase(it)\<close>: the node \<open>it\<close> leaves the list (an iterator of no node removes nothing).\<close>

definition list_erase :: "iter \<Rightarrow> 'a std_list \<Rightarrow> 'a std_list" where
  "list_erase it l = l\<lparr>cells := filter (\<lambda>c. fst c \<noteq> it) (cells l)\<rparr>"

text \<open>\<open>l.splice(l.begin(), l, it)\<close>: the node \<open>it\<close> is relinked in front of the first node.\<close>

definition splice_front :: "iter \<Rightarrow> 'a std_list \<Rightarrow> 'a std_list" where
  "splice_front it l =
     (case find (\<lambda>c. fst c = it) (cells l) of
        None \<Rightarrow> l
      | Some c \<Rightarrow> l\<lparr>cells := c # filter (\<lambda>c. fst c \<noteq> it) (cells l)\<rparr>)"

text \<open>\<open>front()\<close> and \<open>back()\<close>; the sources call them on non-empty lists only.\<close>

definition list_front :: "'a std_list \<Rightarrow> 'a" where
  "list_front l = snd (hd (cells l))"

definition list_back :: "'a std_list \<Rightarrow> 'a" where
  "list_back l = snd (last (cells l))"

subsection \<open>\<open>std::unordered_map\<close> as an association list with unique keys\<close>

text \<open>
  An iterator into the map is the entry it points to, \<open>None\<close> is \<open>end()\<close>. The order of the
  association list stands for the (unspecified) iteration order of the hash map.
\<close>

definition hm_find :: "'k \<Rightarrow> ('k \<times> 'v) list \<Rightarrow> ('k \<times> 'v) option" where
  "hm_find key m = (case map_of m key of None \<Rightarrow> None | Some v \<Rightarrow> Some (key, v))"

text \<open>\<open>emplace\<close> keeps the entry of a key that is already present.\<close>

definition hm_emplace :: "'k \<Rightarrow> 'v \<Rightarrow> ('k \<times> 'v) list \<Rightarrow> ('k \<times> 'v) list" where
  "hm_emplace key v m = (if map_of m key = None then m @ [(key, v)] else m)"

text \<open>\<open>m[key] = value\<close>.\<close>

definition hm_assign :: "'k \<Rightarrow> 'v \<Rightarrow> ('k \<times> 'v) list \<Rightarrow> ('k \<times> 'v) list" where
  "hm_assign key v m = AList.update key v m"

text \<open>\<open>erase(it)\<close> for an iterator \<open>it\<close> that points to an entry.\<close>

definition hm_erase :: "('k \<times> 'v) \<Rightarrow> ('k \<times> 'v) list \<Rightarrow> ('k \<times> 'v) list" where
  "hm_erase it m = AList.delete (fst it) m"

section \<open>Eviction policies\<close>

text \<open>
  The four classes that implement \<open>ICachePolicy\<close>. A constructor carries the private
  members of its class in the order of their declaration: the key set of
  \<open>NoCachePolicy\<close>; the order list and the lookup from keys to list iterators of the
  other three (\<open>fifo_queue\<close>/\<open>key_lookup\<close>, \<open>lifo_stack\<close>/\<open>key_lookup\<close>,
  \<open>lru_queue\<close>/\<open>key_finder\<close>). A virtual call is a case distinction on the constructor.
\<close>

datatype 'k policy =
    NoCachePolicy "'k set"
  | FIFOCachePolicy "'k std_list" "'k \<rightharpoonup> iter"
  | LIFOCachePolicy "'k std_list" "'k \<rightharpoonup> iter"
  | LRUCachePolicy "'k std_list" "'k \<rightharpoonup> iter"

fun Insert :: "'k \<Rightarrow> 'k policy \<Rightarrow> 'k policy" where
  "Insert key (NoCachePolicy key_storage) = NoCachePolicy (insert key key_storage)"
| "Insert key (FIFOCachePolicy fifo_queue key_lookup) =
     (if key_lookup key \<noteq> None then FIFOCachePolicy fifo_queue key_lookup
      else let fifo_queue' = emplace_front key fifo_queue
           in FIFOCachePolicy fifo_queue' (key_lookup(key \<mapsto> list_begin fifo_queue')))"
| "Insert key (LIFOCachePolicy lifo_stack key_lookup) =
     (if key_lookup key \<noteq> None then LIFOCachePolicy lifo_stack key_lookup
      else let lifo_stack' = emplace_front key lifo_stack
           in LIFOCachePolicy lifo_stack' (key_lookup(key \<mapsto> list_begin lifo_stack')))"
| "Insert key (LRUCachePolicy lru_queue key_finder) =
     (if key_finder key \<noteq> None then LRUCachePolicy lru_queue key_finder
      else let lru_queue' = emplace_front key lru_queue
           in LRUCachePolicy lru_queue' (key_finder(key \<mapsto> list_begin lru_queue')))"

fun Touch :: "'k \<Rightarrow> 'k policy \<Rightarrow> 'k policy" where
  "Touch key (NoCachePolicy key_storage) = NoCachePolicy key_storage"
| "Touch key (FIFOCachePolicy fifo_queue key_lookup) = FIFOCachePolicy fifo_queue key_lookup"
| "Touch key (LIFOCachePolicy lifo_stack key_lookup) = LIFOCachePolicy lifo_stack key_lookup"
| "Touch key (LRUCachePolicy lru_queue key_finder) =
     (case key_finder key of
        None \<Rightarrow> LRUCachePolicy lru_queue key_finder
      | Some it \<Rightarrow> LRUCachePolicy (splice_front it lru_queue) key_finder)"

fun Erase :: "'k \<Rightarrow> 'k policy \<Rightarrow> 'k policy" where
  "Erase key (NoCachePolicy key_storage) = NoCachePolicy (key_storage - {key})"
| "Erase key (FIFOCachePolicy fifo_queue key_lookup) =
     (case key_lookup key of
        None \<Rightarrow> FIFOCachePolicy fifo_queue key_lookup
      | Some it \<Rightarrow> FIFOCachePolicy (list_erase it fifo_queue) (key_lookup(key := None)))"
| "Erase key (LIFOCachePolicy lifo_stack key_lookup) =
     (case key_lookup key of
        None \<Rightarrow> LIFOCachePolicy lifo_stack key_lookup
      | Some it \<Rightarrow> LIFOCachePolicy (list_erase it lifo_stack) (key_lookup(key := None)))"
| "Erase key (LRUCachePolicy lru_queue key_finder) =
     (case key_finder key of
        None \<Rightarrow> LRUCachePolicy lru_queue key_finder
      | Some it \<Rightarrow> LRUCachePolicy (list_erase it lru_queue) (key_finder(key := None)))"

text \<open>
  \<open>ReplacementCandidate\<close> returns the set of its possible outcomes. The list policies
  have one outcome. \<open>NoCachePolicy\<close> returns \<open>*key_storage.begin()\<close>, the first key in the
  unspecified iteration order of an \<open>std::unordered_set\<close>: any key of the set.
\<close>

fun ReplacementCandidate :: "'k policy \<Rightarrow> (error + 'k) set" where
  "ReplacementCandidate (NoCachePolicy key_storage) =
     (if key_storage = {} then {Inl EmptyPolicy} else Inr ` key_storage)"
| "ReplacementCandidate (FIFOCachePolicy fifo_queue key_lookup) =
     (if list_empty fifo_queue then {Inl EmptyPolicy} else {Inr (list_back fifo_queue)})"
| "ReplacementCandidate (LIFOCachePolicy lifo_stack key_lookup) =
     (if list_empty lifo_stack then {Inl EmptyPolicy} else {Inr (list_front lifo_stack)})"
| "ReplacementCandidate (LRUCachePolicy lru_queue key_finder) =
     (if list_empty lru_queue then {Inl EmptyPolicy} else {Inr (list_back lru_queue)})"

text \<open>The template argument \<open>Policy\<close> of the cache and its default-constructed instance.\<close>

datatype policy_kind = NoCache | FIFO | LIFO | LRU

fun default_policy :: "policy_kind \<Rightarrow> 'k policy" where
  "default_policy NoCache = NoCachePolicy {}"
| "default_policy FIFO = FIFOCachePolicy list_new Map.empty"
| "default_policy LIFO = LIFOCachePolicy list_new Map.empty"
| "default_policy LRU = LRUCachePolicy list_new Map.empty"

section \<open>The cache\<close>

text \<open>
  The members of \<open>fixed_sized_cache\<close>. The callback \<open>on_erase_callback\<close> is an arbitrary
  function of the caller with no access to the cache; \<open>on_erase_calls\<close> records the
  arguments of its invocations, oldest first.
\<close>

record ('k, 'v) cache =
  cache_items_map :: "('k \<times> 'v) list"
  cache_policy :: "'k policy"
  max_cache_size :: nat
  on_erase_calls :: "('k \<times> 'v) list"

text \<open>The constructor; \<open>max_size\<close> is a \<open>size_t\<close>, so it is never negative.\<close>

definition fixed_sized_cache :: "nat \<Rightarrow> 'k policy \<Rightarrow> error + ('k, 'v) cache" where
  "fixed_sized_cache max_size policy =
     (if max_size = 0 then Inl InvalidCapacity
      else Inr \<lparr>cache_items_map = [], cache_policy = policy,
                max_cache_size = max_size, on_erase_calls = []\<rparr>)"

definition cache_Insert :: "'k \<Rightarrow> 'v \<Rightarrow> ('k, 'v) cache \<Rightarrow> ('k, 'v) cache" where
  "cache_Insert key v c =
     c\<lparr>cache_policy := Insert key (cache_policy c),
       cache_items_map := hm_emplace key v (cache_items_map c)\<rparr>"

definition cache_Update :: "'k \<Rightarrow> 'v \<Rightarrow> ('k, 'v) cache \<Rightarrow> ('k, 'v) cache" where
  "cache_Update key v c =
     c\<lparr>cache_policy := Touch key (cache_policy c),
       cache_items_map := hm_assign key v (cache_items_map c)\<rparr>"

text \<open>\<open>Erase(const_iterator it)\<close>: policy first, then the callback, then the map.\<close>

definition Erase_it :: "('k \<times> 'v) \<Rightarrow> ('k, 'v) cache \<Rightarrow> ('k, 'v) cache" where
  "Erase_it it c =
     c\<lparr>cache_policy := Erase (fst it) (cache_policy c),
       on_erase_calls := on_erase_calls c @ [(fst it, snd it)],
       cache_items_map := hm_erase it (cache_items_map c)\<rparr>"

text \<open>\<open>Erase(const Key& key)\<close>.\<close>

definition cache_Erase :: "'k \<Rightarrow> ('k, 'v) cache \<Rightarrow> ('k, 'v) cache" where
  "cache_Erase key c =
     (case hm_find key (cache_items_map c) of
        None \<Rightarrow> c
      | Some it \<Rightarrow> Erase_it it c)"

text \<open>
  \<open>Put\<close> is \<open>noexcept\<close>: an exception of \<open>ReplacementCandidate\<close> ends the program, which is
  the outcome \<open>Inl\<close>. The outcomes are a set because the candidate of \<open>NoCachePolicy\<close> is
  any of its keys.
\<close>

definition Put :: "'k \<Rightarrow> 'v \<Rightarrow> ('k, 'v) cache \<Rightarrow> (error + ('k, 'v) cache) set" where
  "Put key v c =
     (case hm_find key (cache_items_map c) of
        None \<Rightarrow>
          (if length (cache_items_map c) \<ge> max_cache_size c
           then (\<lambda>r. case r of
                       Inl e \<Rightarrow> Inl e
                     | Inr evict_key \<Rightarrow> Inr (cache_Insert key v (cache_Erase evict_key c)))
                  ` ReplacementCandidate (cache_policy c)
           else {Inr (cache_Insert key v c)})
      | Some element \<Rightarrow> {Inr (cache_Update key v c)})"

text \<open>\<open>TryGet\<close> returns the iterator and the flag, together with the cache it leaves.\<close>

definition TryGet :: "'k \<Rightarrow> ('k, 'v) cache \<Rightarrow> (('k \<times> 'v) option \<times> bool) \<times> ('k, 'v) cache" where
  "TryGet key c =
     (case hm_find key (cache_items_map c) of
        Some element \<Rightarrow> ((Some element, True), c\<lparr>cache_policy := Touch key (cache_policy c)\<rparr>)
      | None \<Rightarrow> ((None, False), c))"

text \<open>
  \<open>Get\<close> returns the value or throws; the cache is still there for the caller that
  catches the exception, so the cache it leaves is returned in both cases.
\<close>

definition Get :: "'k \<Rightarrow> ('k, 'v) cache \<Rightarrow> (error + 'v) \<times> ('k, 'v) cache" where
  "Get key c =
     (let (result, c') = TryGet key c
      in if \<not> snd result then (Inl KeyNotFound, c')
         else (case fst result of
                 Some element \<Rightarrow> (Inr (snd element), c')
               | None \<Rightarrow> (Inl KeyNotFound, c')))"

definition Cached :: "'k \<Rightarrow> ('k, 'v) cache \<Rightarrow> bool" where
  "Cached key c = (hm_find key (cache_items_map c) \<noteq> None)"

definition Size :: "('k, 'v) cache \<Rightarrow> nat" where
  "Size c = length (cache_items_map c)"

definition Remove :: "'k \<Rightarrow> ('k, 'v) cache \<Rightarrow> bool \<times> ('k, 'v) cache" where
  "Remove key c =
     (case hm_find key (cache_items_map c) of
        None \<Rightarrow> (False, c)
      | Some it \<Rightarrow> (True, Erase_it it c))"

text \<open>\<open>Clear\<close>: the loop over the entries of the map, then \<open>clear()\<close>.\<close>

definition Clear :: "('k, 'v) cache \<Rightarrow> ('k, 'v) cache" where
  "Clear c =
     c\<lparr>cache_policy := foldl (\<lambda>p entry. Erase (fst entry) p) (cache_policy c) (cache_items_map c),
       cache_items_map := []\<rparr>"

subsection \<open>Sequences of public operations\<close>

datatype ('k, 'v) op =
    OpPut 'k 'v | OpTryGet 'k | OpGet 'k | OpCached 'k | OpSize | OpRemove 'k | OpClear

text \<open>
  The caches an operation can leave. A failed \<open>Get\<close> leaves the cache to the caller; a
  failed \<open>Put\<close> ends the program.
\<close>

fun exec :: "('k, 'v) op \<Rightarrow> ('k, 'v) cache \<Rightarrow> (error + ('k, 'v) cache) set" where
  "exec (OpPut key v) c = Put key v c"
| "exec (OpTryGet key) c = {Inr (snd (TryGet key c))}"
| "exec (OpGet key) c = {Inr (snd (Get key c))}"
| "exec (OpCached key) c = {Inr c}"
| "exec OpSize c = {Inr c}"
| "exec (OpRemove key) c = {Inr (snd (Remove key c))}"
| "exec OpClear c = {Inr (Clear c)}"

fun run :: "('k, 'v) op list \<Rightarrow> ('k, 'v) cache \<Rightarrow> (error + ('k, 'v) cache) set" where
  "run [] c = {Inr c}"
| "run (x # xs) c =
     (\<Union>r \<in> exec x c. case r of Inl e \<Rightarrow> {Inl e} | Inr c' \<Rightarrow> run xs c')"

text \<open>A cache constructed with the default argument \<open>Policy<Key>{}\<close>.\<close>

definition fresh_cache :: "nat \<Rightarrow> policy_kind \<Rightarrow> error + ('k, 'v) cache" where
  "fresh_cache max_size kind = fixed_sized_cache max_size (default_policy kind)"

section \<open>Invariants\<close>

text \<open>
  The order list and the lookup of a list policy fit together: the nodes of the list have
  distinct identities, all allocated earlier, and the lookup maps a key to an iterator
  exactly when that iterator is the node of the list holding the key.
\<close>

definition list_wf :: "'k std_list \<Rightarrow> ('k \<rightharpoonup> iter) \<Rightarrow> bool" where
  "list_wf q lk \<longleftrightarrow>
     distinct (map fst (cells q)) \<and>
     (\<forall>c \<in> set (cells q). fst c < fresh q) \<and>
     (\<forall>k i. lk k = Some i \<longleftrightarrow> (i, k) \<in> set (cells q))"

fun policy_wf :: "'k policy \<Rightarrow> bool" where
  "policy_wf (NoCachePolicy key_storage) = True"
| "policy_wf (FIFOCachePolicy fifo_queue key_lookup) = list_wf fifo_queue key_lookup"
| "policy_wf (LIFOCachePolicy lifo_stack key_lookup) = list_wf lifo_stack key_lookup"
| "policy_wf (LRUCachePolicy lru_queue key_finder) = list_wf lru_queue key_finder"

fun policy_keys :: "'k policy \<Rightarrow> 'k set" where
  "policy_keys (NoCachePolicy key_storage) = key_storage"
| "policy_keys (FIFOCachePolicy fifo_queue key_lookup) = snd ` set (cells fifo_queue)"
| "policy_keys (LIFOCachePolicy lifo_stack key_lookup) = snd ` set (cells lifo_stack)"
| "policy_keys (LRUCachePolicy lru_queue key_finder) = snd ` set (cells lru_queue)"

fun policy_index :: "'k policy \<Rightarrow> 'k set" where
  "policy_index (NoCachePolicy key_storage) = key_storage"
| "policy_index (FIFOCachePolicy fifo_queue key_lookup) = dom key_lookup"
| "policy_index (LIFOCachePolicy lifo_stack key_lookup) = dom key_lookup"
| "policy_index (LRUCachePolicy lru_queue key_finder) = dom key_finder"

text \<open>The keys of the map, and the invariant of the cache.\<close>

definition cache_keys :: "('k, 'v) cache \<Rightarrow> 'k set" where
  "cache_keys c = fst ` set (cache_items_map c)"

definition cache_inv :: "('k, 'v) cache \<Rightarrow> bool" where
  "cache_inv c \<longleftrightarrow>
     distinct (map fst (cache_items_map c)) \<and>
     policy_wf (cache_policy c) \<and>
     policy_keys (cache_policy c) = cache_keys c \<and>
     0 < max_cache_size c \<and>
     length (cache_items_map c) \<le> max_cache_size c"

text \<open>The class of a policy object; no operation changes it.\<close>

fun kind_of :: "'k policy \<Rightarrow> policy_kind" where
  "kind_of (NoCachePolicy key_storage) = NoCache"
| "kind_of (FIFOCachePolicy fifo_queue key_lookup) = FIFO"
| "kind_of (LIFOCachePolicy lifo_stack key_lookup) = LIFO"
| "kind_of (LRUCachePolicy lru_queue key_finder) = LRU"

subsection \<open>Example caches\<close>

text \<open>
  Caches with keys and values in \<open>nat\<close> under \<open>LRUCachePolicy\<close>: of capacity 1 when
  constructed, after \<open>Put(5, 10)\<close>, and then after one of \<open>Put(7, 20)\<close>, \<open>Put(5, 11)\<close> and
  \<open>Remove(5)\<close>; of capacity 2 when constructed, after \<open>Put(5, 10)\<close> and \<open>Put(7, 20)\<close>,
  then after \<open>Put(5, 11)\<close>, then after \<open>Put(5, 12)\<close>.
\<close>

definition cap1_fresh :: "(nat, nat) cache" where
  "cap1_fresh = \<lparr>cache_items_map = [],
     cache_policy = LRUCachePolicy \<lparr>cells = [], fresh = 0\<rparr> Map.empty,
     max_cache_size = 1, on_erase_calls = []\<rparr>"

definition cap1_one :: "(nat, nat) cache" where
  "cap1_one = \<lparr>cache_items_map = [(5, 10)],
     cache_policy = LRUCachePolicy \<lparr>cells = [(0, 5)], fresh = 1\<rparr> [5 \<mapsto> 0],
     max_cache_size = 1, on_erase_calls = []\<rparr>"

definition cap1_two :: "(nat, nat) cache" where
  "cap1_two = \<lparr>cache_items_map = [(7, 20)],
     cache_policy = LRUCachePolicy \<lparr>cells = [(1, 7)], fresh = 2\<rparr> [7 \<mapsto> 1],
     max_cache_size = 1, on_erase_calls = [(5, 10)]\<rparr>"

definition cap1_updated :: "(nat, nat) cache" where
  "cap1_updated = \<lparr>cache_items_map = [(5, 11)],
     cache_policy = LRUCachePolicy \<lparr>cells = [(0, 5)], fresh = 1\<rparr> [5 \<mapsto> 0],
     max_cache_size = 1, on_erase_calls = []\<rparr>"

definition cap1_removed :: "(nat, nat) cache" where
  "cap1_removed = \<lparr>cache_items_map = [],
     cache_policy = LRUCachePolicy \<lparr>cells = [], fresh = 1\<rparr> Map.empty,
     max_cache_size = 1, on_erase_calls = [(5, 10)]\<rparr>"

definition cap2_fresh :: "(nat, nat) cache" where
  "cap2_fresh = \<lparr>cache_items_map = [],
     cache_policy = LRUCachePolicy \<lparr>cells = [], fresh = 0\<rparr> Map.empty,
     max_cache_size = 2, on_erase_calls = []\<rparr>"

definition cap2_two :: "(nat, nat) cache" where
  "cap2_two = \<lparr>cache_items_map = [(5, 10), (7, 20)],
     cache_policy = LRUCachePolicy \<lparr>cells = [(1, 7), (0, 5)], fresh = 2\<rparr> [5 \<mapsto> 0, 7 \<mapsto> 1],
     max_cache_size = 2, on_erase_calls = []\<rparr>"

definition cap2_updated :: "(nat, nat) cache" where
  "cap2_updated = \<lparr>cache_items_map = [(5, 11), (7, 20)],
     cache_policy = LRUCachePolicy \<lparr>cells = [(0, 5), (1, 7)], fresh = 2\<rparr> [5 \<mapsto> 0, 7 \<mapsto> 1],
     max_cache_size = 2, on_erase_calls = []\<rparr>"

definition cap2_updated_again :: "(nat, nat) cache" where
  "cap2_updated_again = \<lparr>cache_items_map = [(5, 12), (7, 20)],
     cache_policy = LRUCachePolicy \<lparr>cells = [(0, 5), (1, 7)], fresh = 2\<rparr> [5 \<mapsto> 0, 7 \<mapsto> 1],
     max_cache_size = 2, on_erase_calls = []\<rparr>"

section \<open>The order list and its lookup\<close>

lemma list_wfD1: "list_wf q lk \<Longrightarrow> (i, k) \<in> set (cells q) \<Longrightarrow> lk k = Some i"
  by (simp add: list_wf_def)

lemma list_wfD2: "list_wf q lk \<Longrightarrow> lk k = Some i \<Longrightarrow> (i, k) \<in> set (cells q)"
  by (simp add: list_wf_def)

lemma list_wf_distinct: "list_wf q lk \<Longrightarrow> distinct (map fst (cells q))"
  by (simp add: list_wf_def)

lemma list_wf_bound: "list_wf q lk \<Longrightarrow> (i, k) \<in> set (cells q) \<Longrightarrow> i < fresh q"
  by (force simp: list_wf_def)

lemma list_wfI:
  assumes "distinct (map fst (cells q))"
    and "\<And>i k. (i, k) \<in> set (cells q) \<Longrightarrow> i < fresh q"
    and "\<And>i k. (i, k) \<in> set (cells q) \<Longrightarrow> lk k = Some i"
    and "\<And>i k. lk k = Some i \<Longrightarrow> (i, k) \<in> set (cells q)"
  shows "list_wf q lk"
  unfolding list_wf_def
proof (intro conjI ballI allI iffI)
  show "distinct (map fst (cells q))" by (rule assms(1))
next
  fix c assume "c \<in> set (cells q)"
  then show "fst c < fresh q" using assms(2)[of "fst c" "snd c"] by simp
next
  fix k i assume "lk k = Some i"
  then show "(i, k) \<in> set (cells q)" by (rule assms(4))
next
  fix k i assume "(i, k) \<in> set (cells q)"
  then show "lk k = Some i" by (rule assms(3))
qed

lemma list_wf_same_key:
  assumes "list_wf q lk" "(i, k) \<in> set (cells q)" "(j, k) \<in> set (cells q)"
  shows "i = j"
  using list_wfD1[OF assms(1,2)] list_wfD1[OF assms(1,3)] by simp

lemma list_wf_same_iter:
  assumes "list_wf q lk" "(i, k) \<in> set (cells q)" "(i, k') \<in> set (cells q)"
  shows "k = k'"
  using list_wf_distinct[OF assms(1)] assms(2,3) by (rule eq_key_imp_eq_value)

lemma list_wf_emplace:
  assumes wf: "list_wf q lk" and new: "lk key = None"
  shows "list_wf (emplace_front key q) (lk(key \<mapsto> list_begin (emplace_front key q)))"
proof -
  have b: "list_begin (emplace_front key q) = fresh q"
    by (simp add: list_begin_def emplace_front_def)
  have c: "cells (emplace_front key q) = (fresh q, key) # cells q"
    and f: "fresh (emplace_front key q) = Suc (fresh q)"
    by (simp_all add: emplace_front_def)
  have nf: "fresh q \<notin> fst ` set (cells q)"
    using list_wf_bound[OF wf] by force
  have nk: "(i, key) \<notin> set (cells q)" for i
    using list_wfD1[OF wf, of i key] new by auto
  show ?thesis unfolding b
  proof (rule list_wfI)
    show "distinct (map fst (cells (emplace_front key q)))"
      using nf list_wf_distinct[OF wf] by (simp add: c)
  next
    fix i k assume "(i, k) \<in> set (cells (emplace_front key q))"
    then show "i < fresh (emplace_front key q)"
      using list_wf_bound[OF wf, of i k] by (auto simp: c f)
  next
    fix i k assume "(i, k) \<in> set (cells (emplace_front key q))"
    then show "(lk(key \<mapsto> fresh q)) k = Some i"
      using list_wfD1[OF wf, of i k] nk by (auto simp: c)
  next
    fix i k assume "(lk(key \<mapsto> fresh q)) k = Some i"
    then show "(i, k) \<in> set (cells (emplace_front key q))"
      using list_wfD2[OF wf, of k i] by (auto simp: c split: if_splits)
  qed
qed

lemma keys_emplace: "snd ` set (cells (emplace_front key q)) = insert key (snd ` set (cells q))"
  by (simp add: emplace_front_def)

lemma cells_erase:
  assumes wf: "list_wf q lk" and it: "lk key = Some it"
  shows "set (cells (list_erase it q)) = set (cells q) - {(it, key)}"
proof -
  have m: "(it, key) \<in> set (cells q)" by (rule list_wfD2[OF wf it])
  have "fst c \<noteq> it \<longleftrightarrow> c \<noteq> (it, key)" if "c \<in> set (cells q)" for c
    using list_wf_same_iter[OF wf, of it "snd c" key] that m by (cases c) auto
  then show ?thesis by (auto simp: list_erase_def)
qed

lemma list_wf_erase:
  assumes wf: "list_wf q lk" and it: "lk key = Some it"
  shows "list_wf (list_erase it q) (lk(key := None))"
proof (rule list_wfI)
  show "distinct (map fst (cells (list_erase it q)))"
    using list_wf_distinct[OF wf] by (simp add: list_erase_def distinct_map_filter)
next
  fix i k assume "(i, k) \<in> set (cells (list_erase it q))"
  then show "i < fresh (list_erase it q)"
    using list_wf_bound[OF wf, of i k] by (simp add: cells_erase[OF wf it]) (simp add: list_erase_def)
next
  fix i k assume a: "(i, k) \<in> set (cells (list_erase it q))"
  then have m: "(i, k) \<in> set (cells q)" and ne: "(i, k) \<noteq> (it, key)"
    by (simp_all add: cells_erase[OF wf it])
  have "k \<noteq> key" using list_wfD1[OF wf m] it ne by auto
  then show "(lk(key := None)) k = Some i" using list_wfD1[OF wf m] by simp
next
  fix i k assume "(lk(key := None)) k = Some i"
  then have "k \<noteq> key" "lk k = Some i" by (auto split: if_splits)
  then show "(i, k) \<in> set (cells (list_erase it q))"
    using list_wfD2[OF wf, of k i] by (simp add: cells_erase[OF wf it])
qed

lemma keys_erase:
  assumes wf: "list_wf q lk" and it: "lk key = Some it"
  shows "snd ` set (cells (list_erase it q)) = snd ` set (cells q) - {key}"
proof -
  have m: "(it, key) \<in> set (cells q)" by (rule list_wfD2[OF wf it])
  have "snd c \<noteq> key" if "c \<in> set (cells q)" "c \<noteq> (it, key)" for c
    using list_wf_same_key[OF wf, of "fst c" key it] that m by (cases c) auto
  then show ?thesis unfolding cells_erase[OF wf it] using m by force
qed

lemma find_cell:
  assumes "distinct (map fst xs)" "(i, k) \<in> set xs"
  shows "find (\<lambda>c. fst c = i) xs = Some (i, k)"
  using assms by (induction xs) (auto simp: rev_image_eqI)

lemma cells_splice:
  assumes wf: "list_wf q lk" and it: "lk key = Some it"
  shows "cells (splice_front it q) = (it, key) # filter (\<lambda>c. fst c \<noteq> it) (cells q)"
proof -
  have m: "(it, key) \<in> set (cells q)" by (rule list_wfD2[OF wf it])
  have f: "find (\<lambda>c. fst c = it) (cells q) = Some (it, key)"
    by (rule find_cell[OF list_wf_distinct[OF wf] m])
  show ?thesis by (simp add: splice_front_def f)
qed

lemma set_cells_splice:
  assumes wf: "list_wf q lk" and it: "lk key = Some it"
  shows "set (cells (splice_front it q)) = set (cells q)"
proof -
  have m: "(it, key) \<in> set (cells q)" by (rule list_wfD2[OF wf it])
  have "fst c \<noteq> it \<longleftrightarrow> c \<noteq> (it, key)" if "c \<in> set (cells q)" for c
    using list_wf_same_iter[OF wf, of it "snd c" key] that m by (cases c) auto
  then show ?thesis unfolding cells_splice[OF wf it] using m by auto
qed

lemma list_wf_splice:
  assumes wf: "list_wf q lk" and it: "lk key = Some it"
  shows "list_wf (splice_front it q) lk"
proof (rule list_wfI)
  have "it \<notin> fst ` set (filter (\<lambda>c. fst c \<noteq> it) (cells q))" by auto
  then show "distinct (map fst (cells (splice_front it q)))"
    using list_wf_distinct[OF wf] by (simp add: cells_splice[OF wf it] distinct_map_filter)
next
  fix i k assume "(i, k) \<in> set (cells (splice_front it q))"
  then have "(i, k) \<in> set (cells q)" by (simp add: set_cells_splice[OF wf it])
  moreover have "fresh (splice_front it q) = fresh q"
    by (simp add: splice_front_def split: option.splits)
  ultimately show "i < fresh (splice_front it q)" using list_wf_bound[OF wf] by simp
next
  fix i k assume "(i, k) \<in> set (cells (splice_front it q))"
  then show "lk k = Some i" using list_wfD1[OF wf] by (simp add: set_cells_splice[OF wf it])
next
  fix i k assume "lk k = Some i"
  then show "(i, k) \<in> set (cells (splice_front it q))"
    using list_wfD2[OF wf] by (simp add: set_cells_splice[OF wf it])
qed

lemma list_wf_keys: "list_wf q lk \<Longrightarrow> dom lk = snd ` set (cells q)"
  by (force simp: list_wf_def dom_def)

lemma list_wf_distinct_keys:
  assumes wf: "list_wf q lk"
  shows "distinct (map snd (cells q))"
proof -
  have d: "distinct (cells q)"
    using list_wf_distinct[OF wf] by (rule distinct_map[THEN iffD1, THEN conjunct1])
  have "inj_on snd (set (cells q))"
  proof (rule inj_onI)
    fix a b assume a: "a \<in> set (cells q)" and b: "b \<in> set (cells q)" and e: "snd a = snd b"
    have "fst a = fst b"
      using list_wf_same_key[OF wf, of "fst a" "snd a" "fst b"] a b e
      by (cases a; cases b) simp
    with e show "a = b" by (simp add: prod_eq_iff)
  qed
  with d show ?thesis by (simp add: distinct_map)
qed

section \<open>The policies keep their invariant\<close>

lemma list_wf_new: "list_wf list_new Map.empty"
  by (simp add: list_wf_def list_new_def)

lemma policy_wf_default: "policy_wf (default_policy kind)"
  by (cases kind) (simp_all add: list_wf_new)

lemma policy_keys_default: "policy_keys (default_policy kind) = {}"
  by (cases kind) (simp_all add: list_new_def)

lemma policy_index_keys: "policy_wf p \<Longrightarrow> policy_index p = policy_keys p"
  by (cases p) (simp_all add: list_wf_keys)

lemma lookup_None_iff: "list_wf q lk \<Longrightarrow> lk key = None \<longleftrightarrow> key \<notin> snd ` set (cells q)"
proof -
  assume wf: "list_wf q lk"
  have "key \<in> dom lk \<longleftrightarrow> key \<in> snd ` set (cells q)" by (simp add: list_wf_keys[OF wf])
  then show ?thesis by (cases "lk key") (simp_all add: domIff)
qed

lemma policy_wf_Insert: "policy_wf p \<Longrightarrow> policy_wf (Insert key p)"
  by (cases p) (simp_all add: Let_def list_wf_emplace)

lemma policy_keys_Insert: "policy_wf p \<Longrightarrow> policy_keys (Insert key p) = insert key (policy_keys p)"
proof (cases p)
  case (NoCachePolicy s)
  then show ?thesis by simp
next
  case (FIFOCachePolicy q lk)
  assume "policy_wf p"
  with FIFOCachePolicy have wf: "list_wf q lk" by simp
  show ?thesis using lookup_None_iff[OF wf, of key]
    by (cases "lk key") (auto simp: FIFOCachePolicy Let_def keys_emplace)
next
  case (LIFOCachePolicy q lk)
  assume "policy_wf p"
  with LIFOCachePolicy have wf: "list_wf q lk" by simp
  show ?thesis using lookup_None_iff[OF wf, of key]
    by (cases "lk key") (auto simp: LIFOCachePolicy Let_def keys_emplace)
next
  case (LRUCachePolicy q lk)
  assume "policy_wf p"
  with LRUCachePolicy have wf: "list_wf q lk" by simp
  show ?thesis using lookup_None_iff[OF wf, of key]
    by (cases "lk key") (auto simp: LRUCachePolicy Let_def keys_emplace)
qed

lemma policy_wf_Erase: "policy_wf p \<Longrightarrow> policy_wf (Erase key p)"
  by (cases p) (simp_all add: list_wf_erase split: option.splits)

lemma policy_keys_Erase: "policy_wf p \<Longrightarrow> policy_keys (Erase key p) = policy_keys p - {key}"
proof (cases p)
  case (NoCachePolicy s)
  then show ?thesis by simp
next
  case (FIFOCachePolicy q lk)
  assume "policy_wf p"
  with FIFOCachePolicy have wf: "list_wf q lk" by simp
  show ?thesis using lookup_None_iff[OF wf, of key]
    by (cases "lk key") (simp_all add: FIFOCachePolicy keys_erase[OF wf])
next
  case (LIFOCachePolicy q lk)
  assume "policy_wf p"
  with LIFOCachePolicy have wf: "list_wf q lk" by simp
  show ?thesis using lookup_None_iff[OF wf, of key]
    by (cases "lk key") (simp_all add: LIFOCachePolicy keys_erase[OF wf])
next
  case (LRUCachePolicy q lk)
  assume "policy_wf p"
  with LRUCachePolicy have wf: "list_wf q lk" by simp
  show ?thesis using lookup_None_iff[OF wf, of key]
    by (cases "lk key") (simp_all add: LRUCachePolicy keys_erase[OF wf])
qed

lemma policy_wf_Touch: "policy_wf p \<Longrightarrow> policy_wf (Touch key p)"
  by (cases p) (simp_all add: list_wf_splice split: option.splits)

lemma policy_keys_Touch: "policy_wf p \<Longrightarrow> policy_keys (Touch key p) = policy_keys p"
proof (cases p)
  case (LRUCachePolicy q lk)
  assume "policy_wf p"
  with LRUCachePolicy have wf: "list_wf q lk" by simp
  show ?thesis
    by (cases "lk key") (simp_all add: LRUCachePolicy set_cells_splice[OF wf])
qed simp_all

lemma ReplacementCandidate_nonempty: "ReplacementCandidate p \<noteq> {}"
  by (cases p) auto

lemma ReplacementCandidate_Inl:
  "Inl e \<in> ReplacementCandidate p \<longleftrightarrow> e = EmptyPolicy \<and> policy_keys p = {}"
  by (cases p) (auto simp: list_empty_def)

lemma ReplacementCandidate_Inr:
  "Inr k \<in> ReplacementCandidate p \<Longrightarrow> k \<in> policy_keys p"
  by (cases p) (auto simp: list_empty_def list_back_def list_front_def split: if_splits)

section \<open>The cache keeps its invariant\<close>

lemma hm_find_None: "hm_find key m = None \<longleftrightarrow> key \<notin> fst ` set m"
  by (cases "map_of m key") (simp_all add: hm_find_def map_of_eq_None_iff[symmetric])

lemma hm_find_Some:
  "hm_find key m = Some it \<Longrightarrow> it \<in> set m \<and> fst it = key \<and> map_of m key = Some (snd it)"
  by (auto simp: hm_find_def split: option.splits dest: map_of_SomeD)

lemma hm_emplace_keys: "fst ` set (hm_emplace key v m) = insert key (fst ` set m)"
  by (auto simp: hm_emplace_def map_of_eq_None_iff)

lemma hm_emplace_distinct:
  "distinct (map fst m) \<Longrightarrow> distinct (map fst (hm_emplace key v m))"
  by (auto simp: hm_emplace_def map_of_eq_None_iff)

lemma hm_emplace_length:
  "key \<notin> fst ` set m \<Longrightarrow> length (hm_emplace key v m) = Suc (length m)"
  by (simp add: hm_emplace_def map_of_eq_None_iff)

lemma hm_assign_keys: "key \<in> fst ` set m \<Longrightarrow> map fst (hm_assign key v m) = map fst m"
  by (simp add: hm_assign_def update_keys)

lemma hm_assign_length: "key \<in> fst ` set m \<Longrightarrow> length (hm_assign key v m) = length m"
  using hm_assign_keys[of key m v] by (metis length_map)

lemma hm_erase_keys:
  "fst ` set (hm_erase it m) = fst ` set m - {fst it}"
  by (auto simp: hm_erase_def AList.delete_eq)

lemma hm_erase_distinct: "distinct (map fst m) \<Longrightarrow> distinct (map fst (hm_erase it m))"
  by (simp add: hm_erase_def distinct_delete)

lemma delete_length:
  "distinct (map fst m) \<Longrightarrow> k \<in> fst ` set m \<Longrightarrow> Suc (length (AList.delete k m)) = length m"
proof (induction m)
  case Nil
  then show ?case by simp
next
  case (Cons p m)
  show ?case
  proof (cases "fst p = k")
    case True
    with Cons.prems have "k \<notin> fst ` set m" by auto
    then have "AList.delete k m = m" by (rule delete_id)
    with True show ?thesis by simp
  next
    case False
    with Cons show ?thesis by auto
  qed
qed

lemma hm_erase_length:
  "distinct (map fst m) \<Longrightarrow> it \<in> set m \<Longrightarrow> Suc (length (hm_erase it m)) = length m"
  unfolding hm_erase_def by (rule delete_length) auto

lemma inv_Erase_it:
  assumes inv: "cache_inv c" and it: "it \<in> set (cache_items_map c)"
  shows "cache_inv (Erase_it it c)"
    and "Suc (length (cache_items_map (Erase_it it c))) = length (cache_items_map c)"
    and "cache_keys (Erase_it it c) = cache_keys c - {fst it}"
proof -
  from inv have d: "distinct (map fst (cache_items_map c))" and wf: "policy_wf (cache_policy c)"
    and k: "policy_keys (cache_policy c) = cache_keys c"
    and m: "0 < max_cache_size c" "length (cache_items_map c) \<le> max_cache_size c"
    by (simp_all add: cache_inv_def)
  show l: "Suc (length (cache_items_map (Erase_it it c))) = length (cache_items_map c)"
    using hm_erase_length[OF d it] by (simp add: Erase_it_def)
  show ks: "cache_keys (Erase_it it c) = cache_keys c - {fst it}"
    by (simp add: Erase_it_def cache_keys_def hm_erase_keys)
  have "policy_keys (cache_policy (Erase_it it c)) = cache_keys (Erase_it it c)"
    unfolding ks by (simp add: Erase_it_def policy_keys_Erase[OF wf] k)
  moreover have "policy_wf (cache_policy (Erase_it it c))"
    by (simp add: Erase_it_def policy_wf_Erase[OF wf])
  moreover have "distinct (map fst (cache_items_map (Erase_it it c)))"
    by (simp add: Erase_it_def hm_erase_distinct[OF d])
  moreover have "max_cache_size (Erase_it it c) = max_cache_size c" by (simp add: Erase_it_def)
  ultimately show "cache_inv (Erase_it it c)" using m l by (simp add: cache_inv_def)
qed

lemma inv_cache_Insert:
  assumes inv: "cache_inv c" and new: "key \<notin> cache_keys c"
    and room: "length (cache_items_map c) < max_cache_size c"
  shows "cache_inv (cache_Insert key v c)"
proof -
  from inv have d: "distinct (map fst (cache_items_map c))" and wf: "policy_wf (cache_policy c)"
    and k: "policy_keys (cache_policy c) = cache_keys c"
    by (simp_all add: cache_inv_def)
  have "length (cache_items_map (cache_Insert key v c)) = Suc (length (cache_items_map c))"
    using new by (simp add: cache_Insert_def hm_emplace_length cache_keys_def)
  moreover have "policy_keys (cache_policy (cache_Insert key v c)) = cache_keys (cache_Insert key v c)"
    by (simp add: cache_Insert_def cache_keys_def hm_emplace_keys policy_keys_Insert[OF wf] k[unfolded cache_keys_def])
  moreover have "policy_wf (cache_policy (cache_Insert key v c))"
    by (simp add: cache_Insert_def policy_wf_Insert[OF wf])
  moreover have "distinct (map fst (cache_items_map (cache_Insert key v c)))"
    by (simp add: cache_Insert_def hm_emplace_distinct[OF d])
  moreover have "max_cache_size (cache_Insert key v c) = max_cache_size c"
    by (simp add: cache_Insert_def)
  ultimately show ?thesis using room by (simp add: cache_inv_def)
qed

lemma inv_cache_Update:
  assumes inv: "cache_inv c" and old: "key \<in> cache_keys c"
  shows "cache_inv (cache_Update key v c)"
proof -
  from inv have d: "distinct (map fst (cache_items_map c))" and wf: "policy_wf (cache_policy c)"
    and k: "policy_keys (cache_policy c) = cache_keys c"
    and m: "0 < max_cache_size c" "length (cache_items_map c) \<le> max_cache_size c"
    by (simp_all add: cache_inv_def)
  have ks: "map fst (cache_items_map (cache_Update key v c)) = map fst (cache_items_map c)"
    using old by (simp add: cache_Update_def hm_assign_keys cache_keys_def)
  have l: "length (cache_items_map (cache_Update key v c)) = length (cache_items_map c)"
    using old by (simp add: cache_Update_def hm_assign_length cache_keys_def)
  have "cache_keys (cache_Update key v c) = cache_keys c"
    using arg_cong[OF ks, of set] by (simp add: cache_keys_def)
  then have "policy_keys (cache_policy (cache_Update key v c)) = cache_keys (cache_Update key v c)"
    by (simp add: cache_Update_def policy_keys_Touch[OF wf] k)
  moreover have "policy_wf (cache_policy (cache_Update key v c))"
    by (simp add: cache_Update_def policy_wf_Touch[OF wf])
  moreover have "max_cache_size (cache_Update key v c) = max_cache_size c"
    by (simp add: cache_Update_def)
  ultimately show ?thesis using d m l unfolding cache_inv_def ks by simp
qed

lemma inv_touch:
  assumes inv: "cache_inv c"
  shows "cache_inv (c\<lparr>cache_policy := Touch key (cache_policy c)\<rparr>)"
  using inv by (simp add: cache_inv_def cache_keys_def policy_wf_Touch policy_keys_Touch)

lemma inv_TryGet: "cache_inv c \<Longrightarrow> cache_inv (snd (TryGet key c))"
  by (simp add: TryGet_def inv_touch split: option.splits)

lemma inv_Get: "cache_inv c \<Longrightarrow> cache_inv (snd (Get key c))"
  using inv_TryGet[of c key]
  by (cases "TryGet key c") (auto simp: Get_def split: option.splits)

lemma inv_Remove: "cache_inv c \<Longrightarrow> cache_inv (snd (Remove key c))"
  by (auto simp: Remove_def inv_Erase_it(1) split: option.splits dest: hm_find_Some)

lemma Erase_all:
  "policy_wf p \<Longrightarrow>
   policy_wf (foldl (\<lambda>p entry. Erase (fst entry) p) p m) \<and>
   policy_keys (foldl (\<lambda>p entry. Erase (fst entry) p) p m) = policy_keys p - fst ` set m"
proof (induction m arbitrary: p)
  case Nil
  then show ?case by simp
next
  case (Cons e m)
  from Cons.IH[OF policy_wf_Erase[OF Cons.prems, of "fst e"]]
  show ?case by (auto simp: policy_keys_Erase[OF Cons.prems])
qed

lemma inv_Clear: "cache_inv c \<Longrightarrow> cache_inv (Clear c)"
  using Erase_all[of "cache_policy c" "cache_items_map c"]
  by (simp add: cache_inv_def Clear_def cache_keys_def)

lemma Put_nonempty: "Put key v c \<noteq> {}"
  by (simp add: Put_def ReplacementCandidate_nonempty split: option.splits)

text \<open>The three ways of a \<open>Put\<close>: update, insertion with room, insertion after an eviction.\<close>

lemma Put_cases:
  assumes inv: "cache_inv c" and r: "r \<in> Put key v c"
  shows "(key \<in> cache_keys c \<and> r = Inr (cache_Update key v c)) \<or>
         (key \<notin> cache_keys c \<and> length (cache_items_map c) < max_cache_size c \<and>
            r = Inr (cache_Insert key v c)) \<or>
         (key \<notin> cache_keys c \<and> length (cache_items_map c) = max_cache_size c \<and>
            (\<exists>it. it \<in> set (cache_items_map c) \<and>
                  Inr (fst it) \<in> ReplacementCandidate (cache_policy c) \<and>
                  r = Inr (cache_Insert key v (Erase_it it c))))"
proof (cases "hm_find key (cache_items_map c)")
  case (Some element)
  then have "key \<in> cache_keys c" using hm_find_None[of key "cache_items_map c"]
    by (simp add: cache_keys_def)
  with r Some show ?thesis by (simp add: Put_def)
next
  case None
  then have new: "key \<notin> cache_keys c" by (simp add: hm_find_None cache_keys_def)
  show ?thesis
  proof (cases "length (cache_items_map c) \<ge> max_cache_size c")
    case False
    with r None new show ?thesis by (simp add: Put_def)
  next
    case True
    from inv have k: "policy_keys (cache_policy c) = cache_keys c"
      and m: "0 < max_cache_size c" and le: "length (cache_items_map c) \<le> max_cache_size c"
      by (simp_all add: cache_inv_def)
    from True le have full: "length (cache_items_map c) = max_cache_size c" by simp
    from True m have "cache_items_map c \<noteq> []" by auto
    then have ne: "policy_keys (cache_policy c) \<noteq> {}" by (simp add: k cache_keys_def)
    from r None True obtain x where x: "x \<in> ReplacementCandidate (cache_policy c)"
      and rx: "r = (case x of Inl e \<Rightarrow> Inl e
                 | Inr evict_key \<Rightarrow> Inr (cache_Insert key v (cache_Erase evict_key c)))"
      by (auto simp: Put_def)
    show ?thesis
    proof (cases x)
      case (Inl e)
      with x ne show ?thesis by (simp add: ReplacementCandidate_Inl)
    next
      case (Inr ek)
      with x have "ek \<in> cache_keys c" using ReplacementCandidate_Inr[of ek "cache_policy c"]
        by (simp add: k)
      then obtain it where f: "hm_find ek (cache_items_map c) = Some it"
        using hm_find_None[of ek "cache_items_map c"] by (auto simp: cache_keys_def)
      then have it: "it \<in> set (cache_items_map c)" and ek: "fst it = ek"
        by (simp_all add: hm_find_Some)
      have e: "cache_Erase ek c = Erase_it it c" by (simp add: cache_Erase_def f)
      have "it \<in> set (cache_items_map c) \<and>
            Inr (fst it) \<in> ReplacementCandidate (cache_policy c) \<and>
            r = Inr (cache_Insert key v (Erase_it it c))"
        using it ek x Inr rx e by simp
      then have "\<exists>it. it \<in> set (cache_items_map c) \<and>
            Inr (fst it) \<in> ReplacementCandidate (cache_policy c) \<and>
            r = Inr (cache_Insert key v (Erase_it it c))" by (rule exI)
      with new full show ?thesis by simp
    qed
  qed
qed

lemma inv_Put:
  assumes inv: "cache_inv c" and r: "r \<in> Put key v c"
  shows "\<exists>c'. r = Inr c' \<and> cache_inv c'"
  using Put_cases[OF inv r]
proof (elim disjE conjE exE)
  assume "key \<in> cache_keys c" "r = Inr (cache_Update key v c)"
  then show ?thesis by (simp add: inv_cache_Update[OF inv])
next
  assume "key \<notin> cache_keys c" "length (cache_items_map c) < max_cache_size c"
    "r = Inr (cache_Insert key v c)"
  then show ?thesis by (simp add: inv_cache_Insert[OF inv])
next
  fix it
  assume new: "key \<notin> cache_keys c" and it: "it \<in> set (cache_items_map c)"
    and r: "r = Inr (cache_Insert key v (Erase_it it c))"
  have "length (cache_items_map (Erase_it it c)) < max_cache_size c"
    using inv_Erase_it(2)[OF inv it] inv by (simp add: cache_inv_def)
  moreover have "max_cache_size (Erase_it it c) = max_cache_size c"
    by (simp add: Erase_it_def)
  moreover have "key \<notin> cache_keys (Erase_it it c)"
    using new by (simp add: inv_Erase_it(3)[OF inv it])
  ultimately have "cache_inv (cache_Insert key v (Erase_it it c))"
    using inv_cache_Insert[OF inv_Erase_it(1)[OF inv it]] by simp
  with r show ?thesis by simp
qed

lemma inv_exec:
  assumes inv: "cache_inv c" and r: "r \<in> exec x c"
  shows "\<exists>c'. r = Inr c' \<and> cache_inv c'"
proof (cases x)
  case (OpPut key v)
  with r show ?thesis using inv_Put[OF inv] by simp
qed (use r inv in \<open>simp_all add: inv_TryGet inv_Get inv_Remove inv_Clear\<close>)

lemma exec_nonempty: "exec x c \<noteq> {}"
  by (cases x) (simp_all add: Put_nonempty)

lemma inv_run:
  "cache_inv c \<Longrightarrow> r \<in> run xs c \<Longrightarrow> \<exists>c'. r = Inr c' \<and> cache_inv c'"
proof (induction xs arbitrary: c)
  case Nil
  then show ?case by simp
next
  case (Cons x xs)
  from Cons.prems(2) obtain r1 where r1: "r1 \<in> exec x c"
    and rr: "r \<in> (case r1 of Inl e \<Rightarrow> {Inl e} | Inr c' \<Rightarrow> run xs c')" by auto
  from inv_exec[OF Cons.prems(1) r1] obtain c1 where c1: "r1 = Inr c1" "cache_inv c1" by blast
  with rr have "r \<in> run xs c1" by simp
  with Cons.IH[OF c1(2)] show ?case .
qed

lemma run_nonempty: "cache_inv c \<Longrightarrow> run xs c \<noteq> {}"
proof (induction xs arbitrary: c)
  case Nil
  then show ?case by simp
next
  case (Cons x xs)
  from exec_nonempty[of x c] obtain r1 where r1: "r1 \<in> exec x c" by blast
  from inv_exec[OF Cons.prems r1] obtain c1 where c1: "r1 = Inr c1" "cache_inv c1" by blast
  from Cons.IH[OF c1(2)] obtain r where "r \<in> run xs c1" by blast
  with r1 c1 have "r \<in> run (x # xs) c" by force
  then show ?case by blast
qed

lemma inv_fresh: "fresh_cache max_size kind = Inr c \<Longrightarrow> cache_inv c"
  by (auto simp: fresh_cache_def fixed_sized_cache_def cache_inv_def cache_keys_def
      policy_wf_default policy_keys_default split: if_splits)

section \<open>What the operations change\<close>

lemma calls_cache_Insert: "on_erase_calls (cache_Insert key v c) = on_erase_calls c"
  by (simp add: cache_Insert_def)

lemma calls_cache_Update: "on_erase_calls (cache_Update key v c) = on_erase_calls c"
  by (simp add: cache_Update_def)

lemma calls_Erase_it: "on_erase_calls (Erase_it it c) = on_erase_calls c @ [it]"
  by (simp add: Erase_it_def)

lemma keys_cache_Insert: "cache_keys (cache_Insert key v c) = insert key (cache_keys c)"
  by (simp add: cache_Insert_def cache_keys_def hm_emplace_keys)

lemma keys_cache_Update:
  "key \<in> cache_keys c \<Longrightarrow> cache_keys (cache_Update key v c) = cache_keys c"
  using arg_cong[OF hm_assign_keys[of key "cache_items_map c" v], of set]
  by (simp add: cache_Update_def cache_keys_def)

lemma keys_Erase_it: "cache_keys (Erase_it it c) = cache_keys c - {fst it}"
  by (simp add: Erase_it_def cache_keys_def hm_erase_keys)

lemma max_exec: "Inr c' \<in> exec x c \<Longrightarrow> max_cache_size c' = max_cache_size c"
  by (cases x)
     (auto simp: Put_def cache_Insert_def cache_Update_def cache_Erase_def Erase_it_def
        TryGet_def Get_def Remove_def Clear_def split: option.splits if_splits sum.splits)

lemma max_run: "Inr c' \<in> run xs c \<Longrightarrow> max_cache_size c' = max_cache_size c"
proof (induction xs arbitrary: c)
  case Nil
  then show ?case by simp
next
  case (Cons x xs)
  from Cons.prems obtain r1 where r1: "r1 \<in> exec x c"
    and rr: "Inr c' \<in> (case r1 of Inl e \<Rightarrow> {Inl e} | Inr c1 \<Rightarrow> run xs c1)" by auto
  then obtain c1 where c1: "r1 = Inr c1" by (cases r1) auto
  with rr have "Inr c' \<in> run xs c1" by simp
  with Cons.IH have "max_cache_size c' = max_cache_size c1" .
  with max_exec[of c1 x c] r1 c1 show ?case by simp
qed

lemma reach:
  assumes "fresh_cache max_size kind = Inr c0" and "Inr c \<in> run xs c0"
  shows "cache_inv c" and "max_cache_size c = max_size"
proof -
  from inv_run[OF inv_fresh[OF assms(1)] assms(2)] show "cache_inv c" by simp
  from assms(1) have "max_cache_size c0 = max_size"
    by (auto simp: fresh_cache_def fixed_sized_cache_def split: if_splits)
  with max_run[OF assms(2)] show "max_cache_size c = max_size" by simp
qed

lemma fresh_cache_ok: "0 < max_size \<Longrightarrow> \<exists>c0. fresh_cache max_size kind = Inr c0"
  by (simp add: fresh_cache_def fixed_sized_cache_def)

subsection \<open>The class of the policy\<close>

lemma kind_of_default: "kind_of (default_policy kind) = kind"
  by (cases kind) simp_all

lemma kind_of_Insert: "kind_of (Insert key p) = kind_of p"
  by (cases p) (simp_all add: Let_def)

lemma kind_of_Touch: "kind_of (Touch key p) = kind_of p"
  by (cases p) (simp_all split: option.splits)

lemma kind_of_Erase: "kind_of (Erase key p) = kind_of p"
  by (cases p) (simp_all split: option.splits)

lemma kind_of_Erase_all: "kind_of (foldl (\<lambda>p entry. Erase (fst entry) p) p m) = kind_of p"
  by (induction m arbitrary: p) (simp_all add: kind_of_Erase)

lemma kind_exec: "Inr c' \<in> exec x c \<Longrightarrow> kind_of (cache_policy c') = kind_of (cache_policy c)"
  by (cases x)
     (auto simp: Put_def cache_Insert_def cache_Update_def cache_Erase_def Erase_it_def
        TryGet_def Get_def Remove_def Clear_def kind_of_Insert kind_of_Touch kind_of_Erase
        kind_of_Erase_all split: option.splits if_splits sum.splits)

lemma kind_run: "Inr c' \<in> run xs c \<Longrightarrow> kind_of (cache_policy c') = kind_of (cache_policy c)"
proof (induction xs arbitrary: c)
  case Nil
  then show ?case by simp
next
  case (Cons x xs)
  from Cons.prems obtain r1 where r1: "r1 \<in> exec x c"
    and rr: "Inr c' \<in> (case r1 of Inl e \<Rightarrow> {Inl e} | Inr c1 \<Rightarrow> run xs c1)" by auto
  then obtain c1 where c1: "r1 = Inr c1" by (cases r1) auto
  with rr have "Inr c' \<in> run xs c1" by simp
  with Cons.IH have "kind_of (cache_policy c') = kind_of (cache_policy c1)" .
  with kind_exec[of c1 x c] r1 c1 show ?case by simp
qed

lemma reach_kind:
  assumes "fresh_cache max_size kind = Inr c0" and "Inr c \<in> run xs c0"
  shows "kind_of (cache_policy c) = kind"
proof -
  from assms(1) have "kind_of (cache_policy c0) = kind"
    by (auto simp: fresh_cache_def fixed_sized_cache_def kind_of_default split: if_splits)
  with kind_run[OF assms(2)] show ?thesis by simp
qed

subsection \<open>Lookups\<close>

lemma Cached_keys: "Cached key c \<longleftrightarrow> key \<in> cache_keys c"
  by (simp add: Cached_def hm_find_None cache_keys_def)

lemma Get_value: "fst (Get key c) = Inr v \<longleftrightarrow> map_of (cache_items_map c) key = Some v"
  by (cases "map_of (cache_items_map c) key") (simp_all add: Get_def TryGet_def hm_find_def)

lemma Touch_other_kinds: "kind_of p \<noteq> LRU \<Longrightarrow> Touch key p = p"
  by (cases p) simp_all

subsection \<open>The invocations of the callback\<close>

lemma removed_entry:
  assumes "distinct (map fst m)" "it \<in> set m"
  shows "{e \<in> set m. fst e = fst it} = {it}"
  using assms by (auto simp: prod_eq_iff dest: eq_key_imp_eq_value[of m "fst it" "snd it"])

lemma items_Erase_it: "cache_items_map (Erase_it it c) = AList.delete (fst it) (cache_items_map c)"
  by (simp add: Erase_it_def hm_erase_def)

lemma calls_Put:
  assumes inv: "cache_inv c" and r: "Inr c' \<in> Put key v c"
  shows "\<exists>es. on_erase_calls c' = on_erase_calls c @ es \<and> distinct es \<and>
              set es = {e \<in> set (cache_items_map c). fst e \<notin> cache_keys c'}"
  using Put_cases[OF inv r]
proof (elim disjE conjE exE)
  assume "key \<in> cache_keys c" "Inr c' = Inr (cache_Update key v c)"
  then have "on_erase_calls c' = on_erase_calls c @ []" "cache_keys c' = cache_keys c"
    by (simp_all add: calls_cache_Update keys_cache_Update)
  then show ?thesis by (intro exI[of _ "[]"]) (auto simp: cache_keys_def)
next
  assume "Inr c' = Inr (cache_Insert key v c)"
  then have "on_erase_calls c' = on_erase_calls c @ []" "cache_keys c' = insert key (cache_keys c)"
    by (simp_all add: calls_cache_Insert keys_cache_Insert)
  then show ?thesis by (intro exI[of _ "[]"]) (auto simp: cache_keys_def)
next
  fix it
  assume new: "key \<notin> cache_keys c" and it: "it \<in> set (cache_items_map c)"
    and c': "Inr c' = Inr (cache_Insert key v (Erase_it it c))"
  from inv have d: "distinct (map fst (cache_items_map c))" by (simp add: cache_inv_def)
  from c' have calls: "on_erase_calls c' = on_erase_calls c @ [it]"
    and keys: "cache_keys c' = insert key (cache_keys c - {fst it})"
    by (simp_all add: calls_cache_Insert calls_Erase_it keys_cache_Insert keys_Erase_it)
  have "{e \<in> set (cache_items_map c). fst e \<notin> cache_keys c'} =
        {e \<in> set (cache_items_map c). fst e = fst it}"
    unfolding keys using new by (auto simp: cache_keys_def)
  with removed_entry[OF d it] calls show ?thesis by (intro exI[of _ "[it]"]) simp
qed

lemma calls_Remove:
  assumes inv: "cache_inv c"
  shows "\<exists>es. on_erase_calls (snd (Remove key c)) = on_erase_calls c @ es \<and> distinct es \<and>
              set es = {e \<in> set (cache_items_map c). fst e \<notin> cache_keys (snd (Remove key c))}"
proof (cases "hm_find key (cache_items_map c)")
  case None
  then have "Remove key c = (False, c)" by (simp add: Remove_def)
  then show ?thesis by (intro exI[of _ "[]"]) (auto simp: cache_keys_def)
next
  case (Some it)
  then have r: "Remove key c = (True, Erase_it it c)" by (simp add: Remove_def)
  from Some have it: "it \<in> set (cache_items_map c)" by (simp add: hm_find_Some)
  from inv have d: "distinct (map fst (cache_items_map c))" by (simp add: cache_inv_def)
  have "{e \<in> set (cache_items_map c). fst e \<notin> cache_keys (Erase_it it c)} =
        {e \<in> set (cache_items_map c). fst e = fst it}"
    unfolding keys_Erase_it by (auto simp: cache_keys_def)
  with removed_entry[OF d it] show ?thesis
    unfolding r by (intro exI[of _ "[it]"]) (simp add: calls_Erase_it)
qed

lemma calls_lookup:
  assumes "cache_items_map c' = cache_items_map c" "on_erase_calls c' = on_erase_calls c"
  shows "\<exists>es. on_erase_calls c' = on_erase_calls c @ es \<and> distinct es \<and>
              set es = {e \<in> set (cache_items_map c). fst e \<notin> cache_keys c'}"
  using assms by (intro exI[of _ "[]"]) (auto simp: cache_keys_def)

lemma TryGet_frame:
  "cache_items_map (snd (TryGet key c)) = cache_items_map c"
  "on_erase_calls (snd (TryGet key c)) = on_erase_calls c"
  by (simp_all add: TryGet_def split: option.splits)

lemma Get_frame:
  "cache_items_map (snd (Get key c)) = cache_items_map c"
  "on_erase_calls (snd (Get key c)) = on_erase_calls c"
  using TryGet_frame[of key c]
  by (cases "TryGet key c"; auto simp: Get_def split: option.splits)+

lemma Clear_policy:
  assumes inv: "cache_inv c"
  shows "policy_keys (cache_policy (Clear c)) = {}" "policy_index (cache_policy (Clear c)) = {}"
proof -
  from inv have wf: "policy_wf (cache_policy c)"
    and k: "policy_keys (cache_policy c) = fst ` set (cache_items_map c)"
    by (simp_all add: cache_inv_def cache_keys_def)
  from Erase_all[OF wf, of "cache_items_map c"] k
  have "policy_wf (cache_policy (Clear c))" and e: "policy_keys (cache_policy (Clear c)) = {}"
    by (simp_all add: Clear_def)
  then show "policy_keys (cache_policy (Clear c)) = {}"
    "policy_index (cache_policy (Clear c)) = {}" by (simp_all add: policy_index_keys)
qed

lemma map_of_entry: "distinct (map fst m) \<Longrightarrow> it \<in> set m \<Longrightarrow> map_of m (fst it) = Some (snd it)"
  by (cases it) simp

section \<open>Evaluation, and the two concrete policies of the claims\<close>

text \<open>The definitions that the simplifier unfolds to run the model on given operations.\<close>

lemmas eval_defs = fresh_cache_def fixed_sized_cache_def Put_def hm_find_def hm_emplace_def hm_assign_def
  hm_erase_def cache_Insert_def cache_Update_def cache_Erase_def Erase_it_def list_new_def
  emplace_front_def list_begin_def list_erase_def splice_front_def list_front_def list_back_def
  list_empty_def TryGet_def Get_def Remove_def Clear_def Cached_def Size_def Let_def

lemma TryGet_no_touch: "kind_of (cache_policy c) \<noteq> LRU \<Longrightarrow> snd (TryGet key c) = c"
  by (simp add: TryGet_def Touch_other_kinds split: option.splits)

lemma run_TryGets:
  "kind_of (cache_policy c) \<noteq> LRU \<Longrightarrow> run (map OpTryGet ts @ rest) c = run rest c"
  by (induction ts) (simp_all add: TryGet_no_touch)

lemma run_TryGets_only:
  "kind_of (cache_policy c) \<noteq> LRU \<Longrightarrow> run (map OpTryGet ts) c = {Inr c}"
  using run_TryGets[of c ts "[]"] by simp

lemma lru_touch_candidate:
  assumes wf: "list_wf q lk" and key: "key \<in> snd ` set (cells q)"
    and other: "snd ` set (cells q) \<noteq> {key}"
  shows "\<exists>k'. ReplacementCandidate (Touch key (LRUCachePolicy q lk)) = {Inr k'} \<and>
              k' \<noteq> key \<and> k' \<in> snd ` set (cells q)"
proof -
  from key lookup_None_iff[OF wf, of key] obtain it where it: "lk key = Some it" by auto
  let ?rest = "filter (\<lambda>c. fst c \<noteq> it) (cells q)"
  have cs: "cells (splice_front it q) = (it, key) # ?rest" by (rule cells_splice[OF wf it])
  have sc: "set (cells (splice_front it q)) = set (cells q)" by (rule set_cells_splice[OF wf it])
  have "?rest \<noteq> []"
  proof
    assume "?rest = []"
    with cs sc have "set (cells q) = {(it, key)}" by simp
    with other show False by simp
  qed
  then have l: "last ((it, key) # ?rest) = last ?rest" and m: "last ?rest \<in> set ?rest"
    by (simp, rule last_in_set)
  from m have "last ?rest \<in> {x \<in> set (cells q). fst x \<noteq> it}" by (simp only: set_filter)
  then have lm: "last ?rest \<in> set (cells q)" and ne: "fst (last ?rest) \<noteq> it" by blast+
  have "snd (last ?rest) \<noteq> key"
  proof
    assume "snd (last ?rest) = key"
    with lm have "(fst (last ?rest), key) \<in> set (cells q)" by (metis prod.collapse)
    from list_wfD1[OF wf this] it ne show False by simp
  qed
  moreover have "snd (last ?rest) \<in> snd ` set (cells q)" using lm by (rule imageI)
  moreover have "ReplacementCandidate (Touch key (LRUCachePolicy q lk)) = {Inr (snd (last ?rest))}"
    by (simp add: it list_empty_def list_back_def cs l del: last.simps)
  ultimately show ?thesis by blast
qed

section \<open>The example caches\<close>

lemmas example_defs = cap1_fresh_def cap1_one_def cap1_two_def cap1_updated_def cap1_removed_def
  cap2_fresh_def cap2_two_def cap2_updated_def cap2_updated_again_def

lemma cap1_fresh: "fresh_cache 1 LRU = Inr cap1_fresh"
  by (simp add: eval_defs example_defs)

lemma cap1_one: "run [OpPut 5 10] cap1_fresh = {Inr cap1_one}"
  by (simp add: eval_defs example_defs)

lemma cap1_two: "Put 7 20 cap1_one = {Inr cap1_two}"
  by (simp add: eval_defs example_defs)

lemma cap1_updated: "Put 5 11 cap1_one = {Inr cap1_updated}"
  by (simp add: eval_defs example_defs)

lemma cap1_removed: "Remove 5 cap1_one = (True, cap1_removed)"
  by (simp add: eval_defs example_defs)

lemma cap2_fresh: "fresh_cache 2 LRU = Inr cap2_fresh"
  by (simp add: eval_defs example_defs)

lemma cap2_two: "run [OpPut 5 10, OpPut 7 20] cap2_fresh = {Inr cap2_two}"
  by (simp add: eval_defs example_defs)

lemma cap2_updated: "Put 5 11 cap2_two = {Inr cap2_updated}"
  by (simp add: eval_defs example_defs)

lemma cap2_updated_again: "Put 5 12 cap2_updated = {Inr cap2_updated_again}"
  by (simp add: eval_defs example_defs)

section \<open>The claims\<close>

text \<open>
  Claim C1. Start from a cache constructed with a default-constructed policy of any of the
  four kinds, and run any sequence of \<open>Put\<close>, \<open>TryGet\<close>, \<open>Get\<close>, \<open>Cached\<close>, \<open>Size\<close>,
  \<open>Remove\<close> and \<open>Clear\<close>. The sequence has an outcome, no outcome is a failure, and in
  every cache it can leave the keys the policy tracks are the keys of the map: both the
  keys of its order structure (\<open>policy_keys\<close>) and the keys of its lookup
  (\<open>policy_index\<close>).
\<close>

theorem policy_tracks_map_keys:
  assumes "fresh_cache max_size kind = Inr c0"
  shows "run xs c0 \<noteq> {} \<and>
         (\<forall>r \<in> run xs c0. \<exists>c. r = Inr c \<and>
             policy_keys (cache_policy c) = cache_keys c \<and>
             policy_index (cache_policy c) = cache_keys c)"
proof (intro conjI ballI)
  show "run xs c0 \<noteq> {}" by (rule run_nonempty[OF inv_fresh[OF assms]])
next
  fix r assume "r \<in> run xs c0"
  from inv_run[OF inv_fresh[OF assms] this] obtain c where c: "r = Inr c" "cache_inv c" by blast
  then have "policy_keys (cache_policy c) = cache_keys c" "policy_wf (cache_policy c)"
    by (simp_all add: cache_inv_def)
  with c(1) policy_index_keys[of "cache_policy c"]
  show "\<exists>c. r = Inr c \<and> policy_keys (cache_policy c) = cache_keys c \<and>
             policy_index (cache_policy c) = cache_keys c" by simp
qed

theorem policy_tracks_map_keys_witness:
  "fresh_cache 1 LRU = Inr cap1_fresh \<and>
   Inr cap1_one \<in> run [OpPut 5 10] cap1_fresh \<and>
   policy_keys (cache_policy cap1_one) = cache_keys cap1_one \<and>
   policy_index (cache_policy cap1_one) = cache_keys cap1_one \<and>
   cache_keys cap1_one = {5}"
proof -
  have r: "Inr cap1_one \<in> run [OpPut 5 10] cap1_fresh"
    by (simp only: cap1_one insertI1)
  from policy_tracks_map_keys[OF cap1_fresh, of "[OpPut 5 10]"] r
  have "policy_keys (cache_policy cap1_one) = cache_keys cap1_one \<and>
        policy_index (cache_policy cap1_one) = cache_keys cap1_one" by blast
  moreover have "cache_keys cap1_one = {5}" by (simp add: cache_keys_def cap1_one_def)
  ultimately show ?thesis using r cap1_fresh by simp
qed

text \<open>
  Claim C2. For a capacity \<open>max_size > 0\<close> the construction succeeds, and after any
  sequence of public operations \<open>0 \<le> Size() \<le> max_size\<close>. A \<open>Put\<close> in such a cache
  leaves at most \<open>max_size\<close> entries; it removes an entry (exactly one, and one that
  was there) if the key is new and the map holds \<open>max_size\<close> entries, and otherwise it
  keeps every key and adds the given one.
\<close>

theorem size_within_capacity:
  assumes "0 < max_size"
  shows "\<exists>c0. fresh_cache max_size kind = Inr c0 \<and> run xs c0 \<noteq> {} \<and>
         (\<forall>r \<in> run xs c0. \<exists>c. r = Inr c \<and> 0 \<le> Size c \<and> Size c \<le> max_size \<and>
            (\<forall>key v. \<forall>r' \<in> Put key v c. \<exists>c'. r' = Inr c' \<and> Size c' \<le> max_size \<and>
               (if \<not> Cached key c \<and> Size c = max_size
                then \<exists>evicted \<in> cache_keys c. cache_keys c' = insert key (cache_keys c - {evicted})
                else cache_keys c' = insert key (cache_keys c))))"
proof -
  from fresh_cache_ok[OF assms] obtain c0 :: "('a, 'b) cache"
    where c0: "fresh_cache max_size kind = Inr c0" by blast
  have "\<exists>c. r = Inr c \<and> 0 \<le> Size c \<and> Size c \<le> max_size \<and>
            (\<forall>key v. \<forall>r' \<in> Put key v c. \<exists>c'. r' = Inr c' \<and> Size c' \<le> max_size \<and>
               (if \<not> Cached key c \<and> Size c = max_size
                then \<exists>evicted \<in> cache_keys c. cache_keys c' = insert key (cache_keys c - {evicted})
                else cache_keys c' = insert key (cache_keys c)))"
    if r: "r \<in> run xs c0" for r
  proof -
    from inv_run[OF inv_fresh[OF c0] r] obtain c where c: "r = Inr c" by blast
    with r have rc: "Inr c \<in> run xs c0" by simp
    note inv = reach(1)[OF c0 rc] and mx = reach(2)[OF c0 rc]
    have sz: "Size c \<le> max_size" using inv mx by (simp add: cache_inv_def Size_def)
    have "\<exists>c'. r' = Inr c' \<and> Size c' \<le> max_size \<and>
               (if \<not> Cached key c \<and> Size c = max_size
                then \<exists>evicted \<in> cache_keys c. cache_keys c' = insert key (cache_keys c - {evicted})
                else cache_keys c' = insert key (cache_keys c))"
      if r': "r' \<in> Put key v c" for key v r'
    proof -
      from inv_Put[OF inv r'] obtain c' where c': "r' = Inr c'" "cache_inv c'" by blast
      have "Inr c' \<in> exec (OpPut key v) c" using r' c' by simp
      from max_exec[OF this] c'(2) mx have sz': "Size c' \<le> max_size"
        by (simp add: cache_inv_def Size_def)
      have ck: "Cached key c \<longleftrightarrow> key \<in> cache_keys c"
        by (simp add: Cached_def hm_find_None cache_keys_def)
      from Put_cases[OF inv r']
      have "if \<not> Cached key c \<and> Size c = max_size
                then \<exists>evicted \<in> cache_keys c. cache_keys c' = insert key (cache_keys c - {evicted})
                else cache_keys c' = insert key (cache_keys c)"
      proof (elim disjE conjE exE)
        assume "key \<in> cache_keys c" "r' = Inr (cache_Update key v c)"
        with c'(1) show ?thesis by (auto simp: ck keys_cache_Update)
      next
        assume "key \<notin> cache_keys c" "length (cache_items_map c) < max_cache_size c"
          "r' = Inr (cache_Insert key v c)"
        with c'(1) mx show ?thesis by (auto simp: ck Size_def keys_cache_Insert)
      next
        fix it
        assume "key \<notin> cache_keys c" "length (cache_items_map c) = max_cache_size c"
          "it \<in> set (cache_items_map c)" "r' = Inr (cache_Insert key v (Erase_it it c))"
        moreover from this have "fst it \<in> cache_keys c" by (simp add: cache_keys_def)
        ultimately show ?thesis using c'(1) mx
          by (auto simp: ck Size_def keys_cache_Insert keys_Erase_it)
      qed
      with c'(1) sz' show ?thesis by blast
    qed
    with c sz show ?thesis by blast
  qed
  with c0 run_nonempty[OF inv_fresh[OF c0], of xs] show ?thesis by blast
qed

theorem size_within_capacity_witness:
  "(0::nat) < 1 \<and> fresh_cache 1 LRU = Inr cap1_fresh \<and>
   Inr cap1_one \<in> run [OpPut 5 10] cap1_fresh \<and>
   Size cap1_one \<le> 1 \<and> \<not> Cached 7 cap1_one \<and> Size cap1_one = 1 \<and>
   Inr cap1_two \<in> Put 7 20 cap1_one \<and> Size cap1_two \<le> 1 \<and>
   cache_keys cap1_two = insert 7 (cache_keys cap1_one - {5})"
proof -
  have p: "(0::nat) < 1" by simp
  have r: "Inr cap1_one \<in> run [OpPut 5 10] cap1_fresh"
    by (simp only: cap1_one insertI1)
  have q: "Inr cap1_two \<in> Put 7 20 cap1_one" by (simp add: cap1_two)
  from size_within_capacity[OF p, of LRU "[OpPut 5 10]"] cap1_fresh
  have "\<forall>r \<in> run [OpPut 5 10] cap1_fresh. \<exists>c. r = Inr c \<and> Size c \<le> 1 \<and>
          (\<forall>r' \<in> Put 7 20 c. \<exists>c'. r' = Inr c' \<and> Size c' \<le> 1)"
    by fastforce
  with r q have "Size cap1_one \<le> 1 \<and> Size cap1_two \<le> 1" by fastforce
  moreover have "\<not> Cached 7 cap1_one \<and> Size cap1_one = 1 \<and>
      cache_keys cap1_two = insert 7 (cache_keys cap1_one - {5})"
    by (simp add: Cached_def Size_def hm_find_def cache_keys_def cap1_one_def cap1_two_def)
  ultimately show ?thesis using p r q cap1_fresh by simp
qed

text \<open>
  Claim C3, as the code has it. In a cache reached from a constructed one, every public
  operation other than \<open>Clear\<close> extends the record of the callback's invocations by the
  entries \<open>(key, value)\<close> of the map that the operation removed, each of them once:
  nothing for a lookup, an update, an insertion with free capacity or a \<open>Remove\<close> of an
  absent key, the evicted entry for a \<open>Put\<close> at capacity, the removed entry for a
  \<open>Remove\<close>. \<open>Clear\<close> removes every entry and does not invoke the callback.
\<close>

theorem hook_called_once_per_removed_entry_but_not_by_clear:
  assumes c0: "fresh_cache max_size kind = Inr c0" and c: "Inr c \<in> run xs c0"
    and c': "Inr c' \<in> exec x c"
  shows "if x = OpClear
         then on_erase_calls c' = on_erase_calls c \<and> cache_keys c' = {}
         else \<exists>es. on_erase_calls c' = on_erase_calls c @ es \<and> distinct es \<and>
                set es = {e \<in> set (cache_items_map c). fst e \<notin> cache_keys c'}"
proof (cases x)
  case (OpPut key v)
  with c' calls_Put[OF reach(1)[OF c0 c], of c' key v] show ?thesis by simp
next
  case (OpTryGet key)
  with c' calls_lookup[OF TryGet_frame, of key c] show ?thesis by simp
next
  case (OpGet key)
  with c' calls_lookup[OF Get_frame, of key c] show ?thesis by simp
next
  case (OpCached key)
  with c' calls_lookup[of c c] show ?thesis by simp
next
  case OpSize
  with c' calls_lookup[of c c] show ?thesis by simp
next
  case (OpRemove key)
  with c' calls_Remove[OF reach(1)[OF c0 c], of key] show ?thesis by simp
next
  case OpClear
  with c' show ?thesis by (simp add: Clear_def cache_keys_def)
qed

theorem hook_called_once_per_removed_entry_but_not_by_clear_witness:
  "fresh_cache 1 LRU = Inr cap1_fresh \<and>
   Inr cap1_one \<in> run [OpPut 5 10] cap1_fresh \<and>
   Inr cap1_two \<in> exec (OpPut 7 20) cap1_one \<and>
   (\<exists>es. on_erase_calls cap1_two = on_erase_calls cap1_one @ es \<and> distinct es \<and>
         set es = {(5, 10)})"
proof -
  have r: "Inr cap1_one \<in> run [OpPut 5 10] cap1_fresh"
    by (simp only: cap1_one insertI1)
  have q: "Inr cap1_two \<in> exec (OpPut 7 20) cap1_one" by (simp add: cap1_two)
  have m: "{e \<in> set (cache_items_map cap1_one). fst e \<notin> cache_keys cap1_two} = {(5, 10)}"
    by (auto simp: cache_keys_def cap1_one_def cap1_two_def)
  have ne: "OpPut 7 20 \<noteq> (OpClear :: (nat, nat) op)" by simp
  from hook_called_once_per_removed_entry_but_not_by_clear[OF cap1_fresh r q]
  have "\<exists>es. on_erase_calls cap1_two = on_erase_calls cap1_one @ es \<and> distinct es \<and>
          set es = {(5, 10)}"
    unfolding if_not_P[OF ne] m .
  with cap1_fresh r q show ?thesis by (intro conjI)
qed

text \<open>
  Claim C3 as it is written fails for the third cause of removal: \<open>Clear\<close> on the cache
  that holds the entry \<open>(5, 10)\<close> removes the entry, and the callback has not been
  invoked at all.
\<close>

theorem clear_removes_entry_without_hook_call:
  "fresh_cache 1 LRU = Inr cap1_fresh \<and>
   run [OpPut 5 10] cap1_fresh = {Inr cap1_one} \<and>
   Cached 5 cap1_one \<and> Size cap1_one = 1 \<and>
   exec OpClear cap1_one = {Inr (Clear cap1_one)} \<and>
   \<not> Cached 5 (Clear cap1_one) \<and> Size (Clear cap1_one) = 0 \<and>
   on_erase_calls (Clear cap1_one) = []"
  using cap1_fresh cap1_one
  by (simp add: Cached_def Size_def Clear_def hm_find_def cap1_one_def)

text \<open>
  Claim C4. In a cache reached from a constructed one, \<open>Clear\<close> leaves the record of the
  callback's invocations as it is, leaves no entry in the map (\<open>Size()\<close> is 0) and no key
  in the policy, and keeps the capacity. A \<open>Put\<close> of a new key at capacity invokes the
  callback once, with the evicted key and the value \<open>Get\<close> would have returned for it
  just before; a \<open>Remove\<close> of a present key returns true and invokes the callback once,
  with the key and the value \<open>Get\<close> would have returned for it just before.
\<close>

theorem clear_is_silent_eviction_and_remove_call_hook_once:
  assumes c0: "fresh_cache max_size kind = Inr c0" and c: "Inr c \<in> run xs c0"
  shows "on_erase_calls (Clear c) = on_erase_calls c \<and>
         Size (Clear c) = 0 \<and> cache_keys (Clear c) = {} \<and>
         policy_keys (cache_policy (Clear c)) = {} \<and>
         policy_index (cache_policy (Clear c)) = {} \<and>
         max_cache_size (Clear c) = max_cache_size c \<and>
         (\<forall>key v. \<not> Cached key c \<and> max_cache_size c \<le> Size c \<longrightarrow>
            Put key v c \<noteq> {} \<and>
            (\<forall>r \<in> Put key v c. \<exists>c' ek ev. r = Inr c' \<and> fst (Get ek c) = Inr ev \<and>
               on_erase_calls c' = on_erase_calls c @ [(ek, ev)] \<and> \<not> Cached ek c')) \<and>
         (\<forall>key ev. fst (Get key c) = Inr ev \<longrightarrow>
            (\<exists>c'. Remove key c = (True, c') \<and>
               on_erase_calls c' = on_erase_calls c @ [(key, ev)] \<and> \<not> Cached key c'))"
proof -
  note inv = reach(1)[OF c0 c]
  from inv have d: "distinct (map fst (cache_items_map c))" by (simp add: cache_inv_def)
  have clear: "on_erase_calls (Clear c) = on_erase_calls c" "Size (Clear c) = 0"
    "cache_keys (Clear c) = {}" "max_cache_size (Clear c) = max_cache_size c"
    by (simp_all add: Clear_def Size_def cache_keys_def)
  have evict: "\<exists>c' ek ev. r = Inr c' \<and> fst (Get ek c) = Inr ev \<and>
               on_erase_calls c' = on_erase_calls c @ [(ek, ev)] \<and> \<not> Cached ek c'"
    if new: "\<not> Cached key c" and full: "max_cache_size c \<le> Size c" and r: "r \<in> Put key v c"
    for key v r
    using Put_cases[OF inv r]
  proof (elim disjE conjE exE)
    assume "key \<in> cache_keys c"
    with new show ?thesis by (simp add: Cached_keys)
  next
    assume "length (cache_items_map c) < max_cache_size c"
    with full show ?thesis by (simp add: Size_def)
  next
    fix it
    assume it: "it \<in> set (cache_items_map c)" and nk: "key \<notin> cache_keys c"
      and r: "r = Inr (cache_Insert key v (Erase_it it c))"
    have "fst it \<in> cache_keys c" using it by (simp add: cache_keys_def)
    with nk have ne: "fst it \<noteq> key" by auto
    have "fst (Get (fst it) c) = Inr (snd it)"
      by (simp add: Get_value map_of_entry[OF d it])
    moreover have "on_erase_calls (cache_Insert key v (Erase_it it c)) =
                   on_erase_calls c @ [(fst it, snd it)]"
      by (simp add: calls_cache_Insert calls_Erase_it)
    moreover have "\<not> Cached (fst it) (cache_Insert key v (Erase_it it c))"
      using ne by (simp add: Cached_keys keys_cache_Insert keys_Erase_it)
    ultimately show ?thesis using r by blast
  qed
  have remove: "\<exists>c'. Remove key c = (True, c') \<and>
               on_erase_calls c' = on_erase_calls c @ [(key, ev)] \<and> \<not> Cached key c'"
    if g: "fst (Get key c) = Inr ev" for key ev
  proof -
    from g have "map_of (cache_items_map c) key = Some ev" by (simp add: Get_value)
    then have f: "hm_find key (cache_items_map c) = Some (key, ev)" by (simp add: hm_find_def)
    then have "Remove key c = (True, Erase_it (key, ev) c)" by (simp add: Remove_def)
    moreover have "on_erase_calls (Erase_it (key, ev) c) = on_erase_calls c @ [(key, ev)]"
      by (simp add: calls_Erase_it)
    moreover have "\<not> Cached key (Erase_it (key, ev) c)"
      by (simp add: Cached_keys keys_Erase_it)
    ultimately show ?thesis by simp
  qed
  have evict': "Put key v c \<noteq> {} \<and>
      (\<forall>r \<in> Put key v c. \<exists>c' ek ev. r = Inr c' \<and> fst (Get ek c) = Inr ev \<and>
         on_erase_calls c' = on_erase_calls c @ [(ek, ev)] \<and> \<not> Cached ek c')"
    if "\<not> Cached key c" "max_cache_size c \<le> Size c" for key v
  proof (intro conjI ballI)
    show "Put key v c \<noteq> {}" by (rule Put_nonempty)
  next
    fix r assume "r \<in> Put key v c"
    from evict[OF that this]
    show "\<exists>c' ek ev. r = Inr c' \<and> fst (Get ek c) = Inr ev \<and>
         on_erase_calls c' = on_erase_calls c @ [(ek, ev)] \<and> \<not> Cached ek c'" .
  qed
  from clear Clear_policy[OF inv] evict' remove show ?thesis by blast
qed

theorem clear_is_silent_eviction_and_remove_call_hook_once_witness:
  "fresh_cache 1 LRU = Inr cap1_fresh \<and>
   Inr cap1_one \<in> run [OpPut 5 10] cap1_fresh \<and>
   on_erase_calls (Clear cap1_one) = on_erase_calls cap1_one \<and>
   Size (Clear cap1_one) = 0 \<and> policy_keys (cache_policy (Clear cap1_one)) = {} \<and>
   \<not> Cached 7 cap1_one \<and> max_cache_size cap1_one \<le> Size cap1_one \<and>
   Inr cap1_two \<in> Put 7 20 cap1_one \<and>
   on_erase_calls cap1_two = on_erase_calls cap1_one @ [(5, 10)] \<and>
   fst (Get 5 cap1_one) = Inr 10 \<and>
   Remove 5 cap1_one = (True, cap1_removed) \<and>
   on_erase_calls cap1_removed = on_erase_calls cap1_one @ [(5, 10)]"
proof -
  have r: "Inr cap1_one \<in> run [OpPut 5 10] cap1_fresh"
    by (simp only: cap1_one insertI1)
  note t = clear_is_silent_eviction_and_remove_call_hook_once[OF cap1_fresh r]
  have g: "fst (Get 5 cap1_one) = Inr 10"
    by (simp add: Get_def TryGet_def hm_find_def cap1_one_def)
  from t g have "\<exists>c'. Remove 5 cap1_one = (True, c') \<and>
      on_erase_calls c' = on_erase_calls cap1_one @ [(5, 10)]" by blast
  then have rm: "on_erase_calls cap1_removed = on_erase_calls cap1_one @ [(5, 10)]"
    by (simp add: cap1_removed)
  from t have cl: "on_erase_calls (Clear cap1_one) = on_erase_calls cap1_one"
    "Size (Clear cap1_one) = 0" "policy_keys (cache_policy (Clear cap1_one)) = {}"
    by blast+
  have ev: "\<not> Cached 7 cap1_one" "max_cache_size cap1_one \<le> Size cap1_one"
    "Inr cap1_two \<in> Put 7 20 cap1_one"
    "on_erase_calls cap1_two = on_erase_calls cap1_one @ [(5, 10)]"
    by (simp_all add: cap1_two) (simp_all add: Cached_def Size_def hm_find_def cap1_one_def cap1_two_def)
  from cap1_fresh r cl ev g rm cap1_removed show ?thesis by simp
qed

text \<open>
  Claim C5. With \<open>LRUCachePolicy\<close> and capacity 3, for distinct keys \<open>A\<close>, \<open>B\<close>, \<open>C\<close>, \<open>D\<close>
  and any values: after \<open>Put\<close> of \<open>A\<close>, \<open>B\<close>, \<open>C\<close> in this order, \<open>TryGet(A)\<close> is a hit, and the
  \<open>Put\<close> of \<open>D\<close> that follows evicts \<open>B\<close> and nothing else: the callback has been invoked
  once, for \<open>B\<close>, and \<open>A\<close>, \<open>C\<close>, \<open>D\<close> are cached while \<open>B\<close> is not.
\<close>

theorem lru_evicts_least_recently_used:
  assumes "distinct [A, B, C, D]"
  shows "\<exists>c0 c3 c4 c5.
           fresh_cache 3 LRU = Inr c0 \<and>
           run [OpPut A vA, OpPut B vB, OpPut C vC] c0 = {Inr c3} \<and>
           TryGet A c3 = ((Some (A, vA), True), c4) \<and>
           Put D vD c4 = {Inr c5} \<and>
           on_erase_calls c5 = [(B, vB)] \<and>
           Cached A c5 \<and> \<not> Cached B c5 \<and> Cached C c5 \<and> Cached D c5 \<and> Size c5 = 3"
  using assms by (auto simp: eval_defs)

theorem lru_evicts_least_recently_used_witness:
  "distinct [1, 2, 3, 4 :: nat] \<and>
   (\<exists>c0 c3 c4 c5.
       fresh_cache 3 LRU = Inr c0 \<and>
       run [OpPut (1::nat) (10::nat), OpPut 2 20, OpPut 3 30] c0 = {Inr c3} \<and>
       TryGet 1 c3 = ((Some (1, 10 :: nat), True), c4) \<and>
       Put 4 40 c4 = {Inr c5} \<and>
       on_erase_calls c5 = [(2, 20)] \<and>
       Cached 1 c5 \<and> \<not> Cached 2 c5 \<and> Cached 3 c5 \<and> Cached 4 c5 \<and> Size c5 = 3)"
proof -
  have d: "distinct [1, 2, 3, 4 :: nat]" by simp
  from d lru_evicts_least_recently_used[OF d, of 10 20 30 40] show ?thesis by (rule conjI)
qed

text \<open>
  Claim C6. With \<open>FIFOCachePolicy\<close> and capacity 3, for distinct keys \<open>A\<close>, \<open>B\<close>, \<open>C\<close>, \<open>D\<close>
  and any values: after \<open>Put\<close> of \<open>A\<close>, \<open>B\<close>, \<open>C\<close> in this order, with any \<open>TryGet\<close> calls
  after each of them, \<open>TryGet\<close> hits on \<open>A\<close>, \<open>B\<close> and \<open>C\<close>, and the \<open>Put\<close> of \<open>D\<close> that follows
  evicts \<open>A\<close> and nothing else.
\<close>

theorem fifo_evicts_first_inserted_whatever_was_looked_up:
  assumes "distinct [A, B, C, D]"
  shows "\<exists>c0 c3 c4.
           fresh_cache 3 FIFO = Inr c0 \<and>
           run (OpPut A vA # map OpTryGet ts1 @ OpPut B vB # map OpTryGet ts2 @
                OpPut C vC # map OpTryGet ts3) c0 = {Inr c3} \<and>
           fst (TryGet A c3) = (Some (A, vA), True) \<and>
           fst (TryGet B c3) = (Some (B, vB), True) \<and>
           fst (TryGet C c3) = (Some (C, vC), True) \<and>
           Put D vD c3 = {Inr c4} \<and>
           on_erase_calls c4 = [(A, vA)] \<and>
           \<not> Cached A c4 \<and> Cached B c4 \<and> Cached C c4 \<and> Cached D c4 \<and> Size c4 = 3"
  using assms by (auto simp: eval_defs run_TryGets run_TryGets_only)

theorem fifo_evicts_first_inserted_whatever_was_looked_up_witness:
  "distinct [1, 2, 3, 4 :: nat] \<and>
   (\<exists>c0 c3 c4.
       fresh_cache 3 FIFO = Inr c0 \<and>
       run (OpPut (1::nat) (10::nat) # map OpTryGet [1] @ OpPut 2 20 # map OpTryGet [2, 1] @
            OpPut 3 30 # map OpTryGet [1, 3, 1]) c0 = {Inr c3} \<and>
       fst (TryGet 1 c3) = (Some (1, 10 :: nat), True) \<and>
       fst (TryGet 2 c3) = (Some (2, 20), True) \<and>
       fst (TryGet 3 c3) = (Some (3, 30), True) \<and>
       Put 4 40 c3 = {Inr c4} \<and>
       on_erase_calls c4 = [(1, 10)] \<and>
       \<not> Cached 1 c4 \<and> Cached 2 c4 \<and> Cached 3 c4 \<and> Cached 4 c4 \<and> Size c4 = 3)"
proof -
  have d: "distinct [1, 2, 3, 4 :: nat]" by simp
  from d fifo_evicts_first_inserted_whatever_was_looked_up[OF d, of 10 "[1]" 20 "[2, 1]" 30 "[1, 3, 1]" 40]
  show ?thesis by (rule conjI)
qed

text \<open>
  Claim C7. In a cache reached from a constructed one, \<open>Put(K, V1)\<close> followed by
  \<open>Put(K, V2)\<close>: the second \<open>Put\<close> leaves \<open>Size()\<close> as the first left it (and as it was
  before both, if \<open>K\<close> was present), and \<open>Get(K)\<close> then returns \<open>V2\<close>. Under
  \<open>LRUCachePolicy\<close>, if the cache holds another key, the replacement candidate after the
  update is a cached key other than \<open>K\<close>.
\<close>

theorem put_twice_updates_in_place:
  assumes c0: "fresh_cache max_size kind = Inr c0" and c: "Inr c \<in> run xs c0"
    and c1: "Inr c1 \<in> Put key v1 c" and c2: "Inr c2 \<in> Put key v2 c1"
  shows "Size c2 = Size c1 \<and> fst (Get key c2) = Inr v2 \<and>
         (Cached key c \<longrightarrow> Size c2 = Size c) \<and>
         (kind = LRU \<and> cache_keys c2 \<noteq> {key} \<longrightarrow>
            (\<exists>k'. ReplacementCandidate (cache_policy c2) = {Inr k'} \<and>
                  k' \<noteq> key \<and> Cached k' c2))"
proof -
  note inv = reach(1)[OF c0 c]
  from inv_Put[OF inv c1] have inv1: "cache_inv c1" by simp
  have k1: "key \<in> cache_keys c1"
    using Put_cases[OF inv c1] by (auto simp: keys_cache_Update keys_cache_Insert)
  then have f: "hm_find key (cache_items_map c1) \<noteq> None"
    by (simp add: hm_find_None cache_keys_def)
  with c2 have e2: "c2 = cache_Update key v2 c1" by (auto simp: Put_def)
  from k1 have km: "key \<in> fst ` set (cache_items_map c1)" by (simp add: cache_keys_def)
  have s: "Size c2 = Size c1" using km by (simp add: e2 Size_def cache_Update_def hm_assign_length)
  have g: "fst (Get key c2) = Inr v2"
    by (simp add: Get_value e2 cache_Update_def hm_assign_def update_conv')
  have s0: "Size c2 = Size c" if "Cached key c"
  proof -
    from that have "hm_find key (cache_items_map c) \<noteq> None" by (simp add: Cached_def)
    with c1 have "c1 = cache_Update key v1 c" by (auto simp: Put_def)
    moreover from that have "key \<in> fst ` set (cache_items_map c)"
      by (simp add: Cached_keys cache_keys_def)
    ultimately show ?thesis using s by (simp add: Size_def cache_Update_def hm_assign_length)
  qed
  have lru: "\<exists>k'. ReplacementCandidate (cache_policy c2) = {Inr k'} \<and> k' \<noteq> key \<and> Cached k' c2"
    if kd: "kind = LRU" and other: "cache_keys c2 \<noteq> {key}"
  proof -
    have "Inr c1 \<in> exec (OpPut key v1) c" using c1 by simp
    from kind_exec[OF this] reach_kind[OF c0 c] kd
    have "kind_of (cache_policy c1) = LRU" by simp
    then obtain q lk where p: "cache_policy c1 = LRUCachePolicy q lk"
      by (cases "cache_policy c1") simp_all
    from inv1 p have wf: "list_wf q lk" and pk: "snd ` set (cells q) = cache_keys c1"
      by (simp_all add: cache_inv_def)
    have ks: "cache_keys c2 = cache_keys c1" by (simp add: e2 keys_cache_Update[OF k1])
    from lru_touch_candidate[OF wf, of key] k1 other
    obtain k' where "ReplacementCandidate (Touch key (LRUCachePolicy q lk)) = {Inr k'}"
      "k' \<noteq> key" "k' \<in> cache_keys c1" by (auto simp: pk ks)
    then show ?thesis by (auto simp: e2 cache_Update_def p[symmetric] Cached_keys ks[unfolded e2 cache_Update_def])
  qed
  from s g s0 lru show ?thesis by blast
qed

theorem put_twice_updates_in_place_witness:
  "fresh_cache 2 LRU = Inr cap2_fresh \<and>
   Inr cap2_two \<in> run [OpPut 5 10, OpPut 7 20] cap2_fresh \<and>
   Inr cap2_updated \<in> Put 5 11 cap2_two \<and>
   Inr cap2_updated_again \<in> Put 5 12 cap2_updated \<and>
   Cached 5 cap2_two \<and> cache_keys cap2_updated_again = {5, 7} \<and>
   Size cap2_updated_again = Size cap2_updated \<and>
   Size cap2_updated_again = Size cap2_two \<and>
   fst (Get 5 cap2_updated_again) = Inr 12 \<and>
   ReplacementCandidate (cache_policy cap2_updated_again) = {Inr 7}"
proof -
  have r: "Inr cap2_two \<in> run [OpPut 5 10, OpPut 7 20] cap2_fresh"
    by (simp only: cap2_two insertI1)
  have p1: "Inr cap2_updated \<in> Put 5 11 cap2_two" by (simp add: cap2_updated)
  have p2: "Inr cap2_updated_again \<in> Put 5 12 cap2_updated" by (simp add: cap2_updated_again)
  have h: "Cached 5 cap2_two" "cache_keys cap2_updated_again = {5, 7}"
    "ReplacementCandidate (cache_policy cap2_updated_again) = {Inr 7}"
    by (auto simp: Cached_def hm_find_def cache_keys_def list_empty_def list_back_def
        cap2_two_def cap2_updated_again_def)
  from put_twice_updates_in_place[OF cap2_fresh r p1 p2] h(1)
  have "Size cap2_updated_again = Size cap2_updated \<and> fst (Get 5 cap2_updated_again) = Inr 12 \<and>
        Size cap2_updated_again = Size cap2_two" by blast
  with cap2_fresh r p1 p2 h show ?thesis by simp
qed

text \<open>
  Claim C8. For each of the four policies, \<open>ReplacementCandidate\<close> throws exactly when the
  policy tracks no key (then it does nothing else), and otherwise returns a tracked key.
  A constructed cache has capacity at least 1, and in every cache reached from it: the
  policy would throw exactly when the map is empty, so it does not throw when the map has
  reached the capacity, and no \<open>Put\<close> fails.
\<close>

theorem replacement_candidate_fails_only_when_empty_and_never_in_put:
  assumes c0: "fresh_cache max_size kind = Inr c0"
  shows "(\<forall>p :: 'k policy.
            (Inl EmptyPolicy \<in> ReplacementCandidate p \<longleftrightarrow> policy_keys p = {}) \<and>
            (policy_keys p = {} \<longrightarrow> ReplacementCandidate p = {Inl EmptyPolicy}) \<and>
            (policy_keys p \<noteq> {} \<longrightarrow>
               ReplacementCandidate p \<noteq> {} \<and> ReplacementCandidate p \<subseteq> Inr ` policy_keys p)) \<and>
         1 \<le> max_size \<and> run xs (c0 :: ('k, 'v) cache) \<noteq> {} \<and>
         (\<forall>r \<in> run xs c0. \<exists>c. r = Inr c \<and> max_cache_size c = max_size \<and>
            (Inl EmptyPolicy \<in> ReplacementCandidate (cache_policy c) \<longleftrightarrow> Size c = 0) \<and>
            (max_cache_size c \<le> Size c \<longrightarrow>
               Inl EmptyPolicy \<notin> ReplacementCandidate (cache_policy c)) \<and>
            (\<forall>key v. Put key v c \<noteq> {} \<and> (\<forall>r' \<in> Put key v c. \<exists>c'. r' = Inr c')))"
proof -
  have pol: "(Inl EmptyPolicy \<in> ReplacementCandidate p \<longleftrightarrow> policy_keys p = {}) \<and>
            (policy_keys p = {} \<longrightarrow> ReplacementCandidate p = {Inl EmptyPolicy}) \<and>
            (policy_keys p \<noteq> {} \<longrightarrow>
               ReplacementCandidate p \<noteq> {} \<and> ReplacementCandidate p \<subseteq> Inr ` policy_keys p)"
    for p :: "'k policy"
    by (cases p) (auto simp: list_empty_def list_back_def list_front_def)
  from c0 have m: "1 \<le> max_size"
    by (auto simp: fresh_cache_def fixed_sized_cache_def split: if_splits)
  have st: "\<exists>c. r = Inr c \<and> max_cache_size c = max_size \<and>
            (Inl EmptyPolicy \<in> ReplacementCandidate (cache_policy c) \<longleftrightarrow> Size c = 0) \<and>
            (max_cache_size c \<le> Size c \<longrightarrow>
               Inl EmptyPolicy \<notin> ReplacementCandidate (cache_policy c)) \<and>
            (\<forall>key v. Put key v c \<noteq> {} \<and> (\<forall>r' \<in> Put key v c. \<exists>c'. r' = Inr c'))"
    if r: "r \<in> run xs c0" for r
  proof -
    from inv_run[OF inv_fresh[OF c0] r] obtain c where rc: "r = Inr c" by blast
    with r have c: "Inr c \<in> run xs c0" by simp
    note inv = reach(1)[OF c0 c] and mx = reach(2)[OF c0 c]
    from inv have k: "policy_keys (cache_policy c) = fst ` set (cache_items_map c)"
      by (simp add: cache_inv_def cache_keys_def)
    have e: "Inl EmptyPolicy \<in> ReplacementCandidate (cache_policy c) \<longleftrightarrow> Size c = 0"
      by (simp add: ReplacementCandidate_Inl k Size_def)
    have "\<exists>c'. r' = Inr c'" if "r' \<in> Put key v c" for key v r'
      using inv_Put[OF inv that] by blast
    with rc mx e m show ?thesis by (auto simp: Put_nonempty)
  qed
  from pol m run_nonempty[OF inv_fresh[OF c0], of xs] st show ?thesis by blast
qed

theorem replacement_candidate_fails_only_when_empty_and_never_in_put_witness:
  "fresh_cache 1 LRU = Inr cap1_fresh \<and>
   ReplacementCandidate (cache_policy cap1_fresh) = {Inl EmptyPolicy} \<and>
   Inr cap1_one \<in> run [OpPut 5 10] cap1_fresh \<and>
   max_cache_size cap1_one \<le> Size cap1_one \<and>
   Inl EmptyPolicy \<notin> ReplacementCandidate (cache_policy cap1_one) \<and>
   Put 7 20 cap1_one = {Inr cap1_two}"
proof -
  have r: "Inr cap1_one \<in> run [OpPut 5 10] cap1_fresh"
    by (simp only: cap1_one insertI1)
  have f: "max_cache_size cap1_one \<le> Size cap1_one" by (simp add: Size_def cap1_one_def)
  have e: "policy_keys (cache_policy cap1_fresh) = {}" by (simp add: cap1_fresh_def)
  note t = replacement_candidate_fails_only_when_empty_and_never_in_put
             [where 'k = nat and 'v = nat, OF cap1_fresh, of "[OpPut 5 10]"]
  from t e have "ReplacementCandidate (cache_policy cap1_fresh) = {Inl EmptyPolicy}" by blast
  moreover from t r f have "Inl EmptyPolicy \<notin> ReplacementCandidate (cache_policy cap1_one)"
    by blast
  ultimately show ?thesis using cap1_fresh r f cap1_two by simp
qed

text \<open>
  Claim C9. For a key that is not in the cache, \<open>Get\<close> throws the key-not-found error
  and \<open>TryGet\<close> returns the end iterator with the flag false; both leave the cache, with
  its policy, exactly as it was.
\<close>

theorem get_miss_throws_tryget_miss_returns:
  assumes "\<not> Cached key c"
  shows "Get key c = (Inl KeyNotFound, c) \<and> TryGet key c = ((None, False), c)"
proof -
  from assms have "hm_find key (cache_items_map c) = None" unfolding Cached_def by blast
  then show ?thesis by (simp add: Get_def TryGet_def)
qed

theorem get_miss_throws_tryget_miss_returns_witness:
  "\<not> Cached 7 cap1_one \<and> Get 7 cap1_one = (Inl KeyNotFound, cap1_one) \<and>
   TryGet 7 cap1_one = ((None, False), cap1_one)"
proof -
  have h: "\<not> Cached 7 cap1_one" by (simp add: Cached_def hm_find_def cap1_one_def)
  from h get_miss_throws_tryget_miss_returns[OF h] show ?thesis by (rule conjI)
qed

text \<open>
  Claim C10. In a cache reached from a constructed one, \<open>Put(k, v)\<close> for a key \<open>k\<close> of the
  map has one outcome, whatever the size: the callback is not invoked, the map keeps its
  keys and maps \<open>k\<close> to \<open>v\<close> and every other key as before, size and capacity stay, and
  the policy is the old one after \<open>Touch(k)\<close>, with the same keys (and is the old one
  itself unless it is an \<open>LRUCachePolicy\<close>).
\<close>

theorem put_of_present_key_updates_in_place:
  assumes c0: "fresh_cache max_size kind = Inr c0" and c: "Inr c \<in> run xs c0"
    and hit: "Cached key c"
  shows "\<exists>c'. Put key v c = {Inr c'} \<and>
           on_erase_calls c' = on_erase_calls c \<and>
           map fst (cache_items_map c') = map fst (cache_items_map c) \<and>
           map_of (cache_items_map c') = (map_of (cache_items_map c))(key \<mapsto> v) \<and>
           Size c' = Size c \<and>
           max_cache_size c' = max_cache_size c \<and>
           cache_policy c' = Touch key (cache_policy c) \<and>
           policy_keys (cache_policy c') = policy_keys (cache_policy c) \<and>
           (kind \<noteq> LRU \<longrightarrow> cache_policy c' = cache_policy c)"
proof -
  note inv = reach(1)[OF c0 c]
  from hit have k: "key \<in> fst ` set (cache_items_map c)" by (simp add: Cached_keys cache_keys_def)
  from hit have "hm_find key (cache_items_map c) \<noteq> None" by (simp add: Cached_def)
  then have p: "Put key v c = {Inr (cache_Update key v c)}" by (auto simp: Put_def)
  have wf: "policy_wf (cache_policy c)" using inv by (simp add: cache_inv_def)
  have "on_erase_calls (cache_Update key v c) = on_erase_calls c"
    and "map fst (cache_items_map (cache_Update key v c)) = map fst (cache_items_map c)"
    and "map_of (cache_items_map (cache_Update key v c)) = (map_of (cache_items_map c))(key \<mapsto> v)"
    and "Size (cache_Update key v c) = Size c"
    and "max_cache_size (cache_Update key v c) = max_cache_size c"
    and "cache_policy (cache_Update key v c) = Touch key (cache_policy c)"
    using k by (simp_all add: cache_Update_def hm_assign_keys hm_assign_length Size_def)
               (simp add: hm_assign_def update_conv')
  moreover have "policy_keys (Touch key (cache_policy c)) = policy_keys (cache_policy c)"
    by (rule policy_keys_Touch[OF wf])
  moreover have "kind \<noteq> LRU \<longrightarrow> Touch key (cache_policy c) = cache_policy c"
    using Touch_other_kinds[of "cache_policy c" key] reach_kind[OF c0 c] by simp
  ultimately show ?thesis using p by simp
qed

theorem put_of_present_key_updates_in_place_witness:
  "fresh_cache 1 LRU = Inr cap1_fresh \<and>
   Inr cap1_one \<in> run [OpPut 5 10] cap1_fresh \<and>
   Cached 5 cap1_one \<and> Size cap1_one = max_cache_size cap1_one \<and>
   Put 5 11 cap1_one = {Inr cap1_updated} \<and>
   on_erase_calls cap1_updated = on_erase_calls cap1_one \<and>
   Size cap1_updated = Size cap1_one"
proof -
  have r: "Inr cap1_one \<in> run [OpPut 5 10] cap1_fresh"
    by (simp only: cap1_one insertI1)
  have h: "Cached 5 cap1_one" "Size cap1_one = max_cache_size cap1_one"
    by (simp_all add: Cached_def Size_def hm_find_def cap1_one_def)
  from put_of_present_key_updates_in_place[OF cap1_fresh r h(1), of 11]
  have "on_erase_calls cap1_updated = on_erase_calls cap1_one \<and>
        Size cap1_updated = Size cap1_one" by (simp add: cap1_updated)
  with cap1_fresh r h cap1_updated show ?thesis by simp
qed

end
